theory Spec2Isabelle
  imports Main "HOL-Library.Monad_Syntax"
begin

section \<open>Memory model\<close>

text \<open>
  The list of package \<open>dll\<close> is a ring of \<open>Entry\<close> objects that point at each other and
  are shared with the index of the cache, so the objects live in an explicit store.
  A pointer is an address; \<open>nil\<close> is \<open>None\<close>. A function of the source that dereferences
  \<open>nil\<close> panics; the model returns \<open>None\<close> for a panic and \<open>Some\<close> for a normal return.

  An \<open>LruList\<close> object at address \<open>l\<close> consists of its embedded sentinel \<open>root\<close>, stored
  at address \<open>l\<close> of the entry store (\<open>root\<close> is the first field of the struct, so
  \<open>&l.root\<close> is the address \<open>l\<close>), and of its field \<open>len\<close>, stored in \<open>lens\<close>.
  The fields \<open>ExpiresAt\<close> and \<open>ExpireBucket\<close> of an entry are written once with their
  zero values and read by no function; they are left out.
  The zero value of a Go type is the constant \<open>default\<close> of the type.
  The fields \<open>next\<close>, \<open>prev\<close> and \<open>list\<close> of an entry are \<open>nextE\<close>, \<open>prevE\<close> and \<open>listE\<close>, and
  the method \<open>insert\<close> is \<open>insert_entry\<close>.
\<close>

type_synonym addr = nat

record ('k, 'v) Entry =
  nextE :: "addr option"
  prevE :: "addr option"
  listE :: "addr option"
  Key :: 'k
  Val :: 'v

record ('k, 'v) heap =
  ents :: "addr \<rightharpoonup> ('k, 'v) Entry"
  lens :: "addr \<rightharpoonup> int"
  brk :: addr

text \<open>Allocation takes the address \<open>brk\<close>, above every address in use.\<close>

definition empty_heap :: "('k, 'v) heap" where
  "empty_heap = \<lparr>ents = Map.empty, lens = Map.empty, brk = 0\<rparr>"

text \<open>A write through a pointer: \<open>p.f = v\<close> is \<open>modify p (\<lambda>e. e\<lparr>f := v\<rparr>)\<close>.\<close>

definition modify :: "addr \<Rightarrow> (('k, 'v) Entry \<Rightarrow> ('k, 'v) Entry) \<Rightarrow> ('k, 'v) heap \<Rightarrow> ('k, 'v) heap option" where
  "modify p f h = (case ents h p of None \<Rightarrow> None
                   | Some e \<Rightarrow> Some (h\<lparr>ents := (ents h)(p \<mapsto> f e)\<rparr>))"

definition set_len :: "addr \<Rightarrow> int \<Rightarrow> ('k, 'v) heap \<Rightarrow> ('k, 'v) heap option" where
  "set_len l n h = (case lens h l of None \<Rightarrow> None
                    | Some _ \<Rightarrow> Some (h\<lparr>lens := (lens h)(l \<mapsto> n)\<rparr>))"

section \<open>The doubly linked list (dll/doublyll.go)\<close>

text \<open>\<open>PrevEntry\<close>: \<open>prev := e.prev; if e.list != nil && prev != &e.list.root { return prev }; return nil\<close>.\<close>

definition PrevEntry :: "addr \<Rightarrow> ('k, 'v) heap \<Rightarrow> addr option option" where
  "PrevEntry e h = do {
     E \<leftarrow> ents h e;
     let prev = prevE E;
     (case listE E of
        None \<Rightarrow> Some None
      | Some l \<Rightarrow> if prev \<noteq> Some l then Some prev else Some None)
   }"

definition Init :: "addr \<Rightarrow> ('k, 'v) heap \<Rightarrow> ('k, 'v) heap option" where
  "Init l h = do {
     h1 \<leftarrow> modify l (\<lambda>e. e\<lparr>nextE := Some l\<rparr>) h;
     h2 \<leftarrow> modify l (\<lambda>e. e\<lparr>prevE := Some l\<rparr>) h1;
     set_len l 0 h2
   }"

text \<open>\<open>new(LruList[K, V])\<close> is a zeroed object at a fresh address; \<open>NewList\<close> initialises it.\<close>

definition NewList :: "('k::default, 'v::default) heap \<Rightarrow> (addr \<times> ('k, 'v) heap) option" where
  "NewList h = do {
     let l = brk h;
     let h0 = h\<lparr>ents := (ents h)(l \<mapsto> \<lparr>nextE = None, prevE = None, listE = None,
                                          Key = default, Val = default\<rparr>),
                lens := (lens h)(l \<mapsto> 0), brk := Suc l\<rparr>;
     h1 \<leftarrow> Init l h0;
     Some (l, h1)
   }"

definition lazyInit :: "addr \<Rightarrow> ('k, 'v) heap \<Rightarrow> ('k, 'v) heap option" where
  "lazyInit l h = do {
     r \<leftarrow> ents h l;
     if nextE r = None then Init l h else Some h
   }"

text \<open>\<open>insert\<close> inserts \<open>entry\<close> after \<open>index\<close>; every right-hand side is read from the
  store as the assignments before it left it.\<close>

definition insert_entry :: "addr \<Rightarrow> addr \<Rightarrow> addr \<Rightarrow> ('k, 'v) heap \<Rightarrow> (addr \<times> ('k, 'v) heap) option" where
  "insert_entry l entry index h = do {
     h1 \<leftarrow> modify entry (\<lambda>e. e\<lparr>prevE := Some index\<rparr>) h;
     ix \<leftarrow> ents h1 index;
     h2 \<leftarrow> modify entry (\<lambda>e. e\<lparr>nextE := nextE ix\<rparr>) h1;
     e2 \<leftarrow> ents h2 entry;
     p \<leftarrow> prevE e2;
     h3 \<leftarrow> modify p (\<lambda>e. e\<lparr>nextE := Some entry\<rparr>) h2;
     e3 \<leftarrow> ents h3 entry;
     n \<leftarrow> nextE e3;
     h4 \<leftarrow> modify n (\<lambda>e. e\<lparr>prevE := Some entry\<rparr>) h3;
     h5 \<leftarrow> modify entry (\<lambda>e. e\<lparr>listE := Some l\<rparr>) h4;
     len \<leftarrow> lens h5 l;
     h6 \<leftarrow> set_len l (len + 1) h5;
     Some (entry, h6)
   }"

definition insertValue :: "addr \<Rightarrow> 'k \<Rightarrow> 'v \<Rightarrow> addr \<Rightarrow> ('k, 'v) heap \<Rightarrow> (addr \<times> ('k, 'v) heap) option" where
  "insertValue l k v index h = do {
     let entry = brk h;
     let h0 = h\<lparr>ents := (ents h)(entry \<mapsto> \<lparr>nextE = None, prevE = None, listE = None,
                                              Key = k, Val = v\<rparr>),
                brk := Suc entry\<rparr>;
     insert_entry l entry index h0
   }"

definition PushFront :: "addr \<Rightarrow> 'k \<Rightarrow> 'v \<Rightarrow> ('k, 'v) heap \<Rightarrow> (addr \<times> ('k, 'v) heap) option" where
  "PushFront l k v h = do {
     h1 \<leftarrow> lazyInit l h;
     insertValue l k v l h1
   }"

definition Remove :: "addr \<Rightarrow> addr \<Rightarrow> ('k, 'v) heap \<Rightarrow> ('v \<times> ('k, 'v) heap) option" where
  "Remove l entry h = do {
     e \<leftarrow> ents h entry;
     p \<leftarrow> prevE e;
     h1 \<leftarrow> modify p (\<lambda>x. x\<lparr>nextE := nextE e\<rparr>) h;
     e1 \<leftarrow> ents h1 entry;
     n \<leftarrow> nextE e1;
     h2 \<leftarrow> modify n (\<lambda>x. x\<lparr>prevE := prevE e1\<rparr>) h1;
     h3 \<leftarrow> modify entry (\<lambda>x. x\<lparr>nextE := None\<rparr>) h2;
     h4 \<leftarrow> modify entry (\<lambda>x. x\<lparr>prevE := None\<rparr>) h3;
     h5 \<leftarrow> modify entry (\<lambda>x. x\<lparr>listE := None\<rparr>) h4;
     len \<leftarrow> lens h5 l;
     h6 \<leftarrow> set_len l (len - 1) h5;
     e6 \<leftarrow> ents h6 entry;
     Some (Val e6, h6)
   }"

definition move :: "addr \<Rightarrow> addr \<Rightarrow> addr \<Rightarrow> ('k, 'v) heap \<Rightarrow> ('k, 'v) heap option" where
  "move l entry index h =
     (if entry = index then Some h
      else do {
        e \<leftarrow> ents h entry;
        p \<leftarrow> prevE e;
        h1 \<leftarrow> modify p (\<lambda>x. x\<lparr>nextE := nextE e\<rparr>) h;
        e1 \<leftarrow> ents h1 entry;
        n \<leftarrow> nextE e1;
        h2 \<leftarrow> modify n (\<lambda>x. x\<lparr>prevE := prevE e1\<rparr>) h1;
        h3 \<leftarrow> modify entry (\<lambda>x. x\<lparr>prevE := Some index\<rparr>) h2;
        ix \<leftarrow> ents h3 index;
        h4 \<leftarrow> modify entry (\<lambda>x. x\<lparr>nextE := nextE ix\<rparr>) h3;
        e4 \<leftarrow> ents h4 entry;
        p4 \<leftarrow> prevE e4;
        h5 \<leftarrow> modify p4 (\<lambda>x. x\<lparr>nextE := Some entry\<rparr>) h4;
        e5 \<leftarrow> ents h5 entry;
        n5 \<leftarrow> nextE e5;
        modify n5 (\<lambda>x. x\<lparr>prevE := Some entry\<rparr>) h5
      })"

text \<open>\<open>MoveToFront\<close>: \<open>if entry.list != l || l.root.next == entry { return }\<close>, the second
  test evaluated only when the first fails.\<close>

definition MoveToFront :: "addr \<Rightarrow> addr \<Rightarrow> ('k, 'v) heap \<Rightarrow> ('k, 'v) heap option" where
  "MoveToFront l entry h = do {
     e \<leftarrow> ents h entry;
     if listE e \<noteq> Some l then Some h
     else do {
       r \<leftarrow> ents h l;
       if nextE r = Some entry then Some h else move l entry l h
     }
   }"

definition Length :: "addr \<Rightarrow> ('k, 'v) heap \<Rightarrow> int option" where
  "Length l h = lens h l"

definition Back :: "addr \<Rightarrow> ('k, 'v) heap \<Rightarrow> addr option option" where
  "Back l h = do {
     n \<leftarrow> lens h l;
     if n = 0 then Some None
     else do { r \<leftarrow> ents h l; Some (prevE r) }
   }"

section \<open>The cache controller (simplelru)\<close>

text \<open>
  The \<open>LruCache\<close> struct, with the two pieces of state its methods act on besides their
  own fields: \<open>mem\<close>, the store that holds the list and its entries, and \<open>env\<close>, the state
  that the eviction callback acts on. The callback \<open>onEvict\<close> is a function
  \<open>key \<Rightarrow> value \<Rightarrow> env \<Rightarrow> env\<close>; \<open>None\<close> is a nil callback. A callback that re-enters the
  cache it is called from is outside this model.
  Go's \<open>int\<close> is modelled by \<open>int\<close>; the one computation on a caller-supplied number,
  the subtraction in \<open>Resize\<close>, wraps at 64 bits.
  A result \<open>(value, ok)\<close> is a pair, with the zero value where the source returns it.
  The field \<open>size\<close> is \<open>sizeC\<close> and the method \<open>Remove\<close> of the cache is \<open>Remove_key\<close>.
\<close>

record ('k, 'v, 'w) LruCache =
  sizeC :: int
  evictList :: addr
  items :: "'k \<rightharpoonup> addr"
  onEvict :: "('k \<Rightarrow> 'v \<Rightarrow> 'w \<Rightarrow> 'w) option"
  mem :: "('k, 'v) heap"
  env :: 'w

definition NewLru :: "int \<Rightarrow> ('k \<Rightarrow> 'v \<Rightarrow> 'w \<Rightarrow> 'w) option \<Rightarrow> ('k::default, 'v::default) heap \<Rightarrow> 'w
    \<Rightarrow> (string + ('k, 'v, 'w) LruCache) option" where
  "NewLru sz cb h w =
     (if sz \<le> 0 then Some (Inl ''size must be greater than 0'')
      else do {
        (l, h1) \<leftarrow> NewList h;
        Some (Inr \<lparr>sizeC = sz, evictList = l, items = Map.empty, onEvict = cb, mem = h1, env = w\<rparr>)
      })"

definition removeElement :: "addr \<Rightarrow> ('k, 'v, 'w) LruCache \<Rightarrow> ('k, 'v, 'w) LruCache option" where
  "removeElement entry c = do {
     (_, h1) \<leftarrow> Remove (evictList c) entry (mem c);
     e \<leftarrow> ents h1 entry;
     let c1 = c\<lparr>mem := h1, items := (items c)(Key e := None)\<rparr>;
     (case onEvict c1 of
        None \<Rightarrow> Some c1
      | Some f \<Rightarrow> do {
          e' \<leftarrow> ents (mem c1) entry;
          Some (c1\<lparr>env := f (Key e') (Val e') (env c1)\<rparr>)
        })
   }"

definition removeOldest :: "('k, 'v, 'w) LruCache \<Rightarrow> ('k, 'v, 'w) LruCache option" where
  "removeOldest c = do {
     b \<leftarrow> Back (evictList c) (mem c);
     (case b of None \<Rightarrow> Some c | Some entry \<Rightarrow> removeElement entry c)
   }"

definition RemoveOldest :: "('k::default, 'v::default, 'w) LruCache
    \<Rightarrow> (('k \<times> 'v \<times> bool) \<times> ('k, 'v, 'w) LruCache) option" where
  "RemoveOldest c = do {
     b \<leftarrow> Back (evictList c) (mem c);
     (case b of
        None \<Rightarrow> Some ((default, default, False), c)
      | Some entry \<Rightarrow> do {
          c1 \<leftarrow> removeElement entry c;
          e \<leftarrow> ents (mem c1) entry;
          Some ((Key e, Val e, True), c1)
        })
   }"

definition Len :: "('k, 'v, 'w) LruCache \<Rightarrow> int option" where
  "Len c = Length (evictList c) (mem c)"

definition Cap :: "('k, 'v, 'w) LruCache \<Rightarrow> int" where
  "Cap c = sizeC c"

definition Add :: "'k \<Rightarrow> 'v \<Rightarrow> ('k, 'v, 'w) LruCache \<Rightarrow> (bool \<times> ('k, 'v, 'w) LruCache) option" where
  "Add key val c =
     (case items c key of
        Some entry \<Rightarrow> do {
          h1 \<leftarrow> MoveToFront (evictList c) entry (mem c);
          h2 \<leftarrow> modify entry (\<lambda>e. e\<lparr>Val := val\<rparr>) h1;
          Some (False, c\<lparr>mem := h2\<rparr>)
        }
      | None \<Rightarrow> do {
          (entry, h1) \<leftarrow> PushFront (evictList c) key val (mem c);
          let c1 = c\<lparr>mem := h1, items := (items c)(key \<mapsto> entry)\<rparr>;
          n \<leftarrow> Length (evictList c1) (mem c1);
          let evict = (n > sizeC c1);
          if evict then do { c2 \<leftarrow> removeOldest c1; Some (evict, c2) }
          else Some (evict, c1)
        })"

definition Get :: "'k \<Rightarrow> ('k, 'v::default, 'w) LruCache \<Rightarrow> (('v \<times> bool) \<times> ('k, 'v, 'w) LruCache) option" where
  "Get key c =
     (case items c key of
        None \<Rightarrow> Some ((default, False), c)
      | Some entry \<Rightarrow> do {
          h1 \<leftarrow> MoveToFront (evictList c) entry (mem c);
          e \<leftarrow> ents h1 entry;
          Some ((Val e, True), c\<lparr>mem := h1\<rparr>)
        })"

definition GetOldest :: "('k::default, 'v::default, 'w) LruCache \<Rightarrow> ('k \<times> 'v \<times> bool) option" where
  "GetOldest c = do {
     b \<leftarrow> Back (evictList c) (mem c);
     (case b of
        None \<Rightarrow> Some (default, default, False)
      | Some entry \<Rightarrow> do { e \<leftarrow> ents (mem c) entry; Some (Key e, Val e, True) })
   }"

definition Contains :: "'k \<Rightarrow> ('k, 'v, 'w) LruCache \<Rightarrow> bool" where
  "Contains key c = (items c key \<noteq> None)"

definition Peek :: "'k \<Rightarrow> ('k, 'v::default, 'w) LruCache \<Rightarrow> ('v \<times> bool) option" where
  "Peek key c =
     (case items c key of
        None \<Rightarrow> Some (default, False)
      | Some entry \<Rightarrow> do { e \<leftarrow> ents (mem c) entry; Some (Val e, True) })"

text \<open>
  The loop of \<open>Keys\<close>: \<open>for entry != nil { keys[i] = entry.Key; i++; entry = entry.PrevEntry() }\<close>.
  An index outside the slice panics, so the loop ends after at most \<open>len(keys)\<close> rounds.
\<close>

function Keys_loop :: "('k, 'v) heap \<Rightarrow> 'k list \<Rightarrow> nat \<Rightarrow> addr option \<Rightarrow> 'k list option" where
  "Keys_loop h keys i entry =
     (case entry of
        None \<Rightarrow> Some keys
      | Some e \<Rightarrow>
          (case ents h e of
             None \<Rightarrow> None
           | Some E \<Rightarrow>
               if i < length keys then
                 (case PrevEntry e h of
                    None \<Rightarrow> None
                  | Some nxt \<Rightarrow> Keys_loop h (keys[i := Key E]) (Suc i) nxt)
               else None))"
  by pat_completeness auto
termination
  by (relation "measure (\<lambda>(h, keys, i, entry). length keys - i)") auto

declare Keys_loop.simps [simp del]

definition Keys :: "('k::default, 'v, 'w) LruCache \<Rightarrow> 'k list option" where
  "Keys c = do {
     n \<leftarrow> Length (evictList c) (mem c);
     if n < 0 then None
     else do {
       entry \<leftarrow> Back (evictList c) (mem c);
       Keys_loop (mem c) (replicate (nat n) default) 0 entry
     }
   }"

function Vals_loop :: "('k, 'v) heap \<Rightarrow> 'v list \<Rightarrow> nat \<Rightarrow> addr option \<Rightarrow> 'v list option" where
  "Vals_loop h vals i entry =
     (case entry of
        None \<Rightarrow> Some vals
      | Some e \<Rightarrow>
          (case ents h e of
             None \<Rightarrow> None
           | Some E \<Rightarrow>
               if i < length vals then
                 (case PrevEntry e h of
                    None \<Rightarrow> None
                  | Some nxt \<Rightarrow> Vals_loop h (vals[i := Val E]) (Suc i) nxt)
               else None))"
  by pat_completeness auto
termination
  by (relation "measure (\<lambda>(h, vals, i, entry). length vals - i)") auto

declare Vals_loop.simps [simp del]

definition Vals :: "('k, 'v::default, 'w) LruCache \<Rightarrow> 'v list option" where
  "Vals c = do {
     n \<leftarrow> Length (evictList c) (mem c);
     if n < 0 then None
     else do {
       entry \<leftarrow> Back (evictList c) (mem c);
       Vals_loop (mem c) (replicate (nat n) default) 0 entry
     }
   }"

definition wrap64 :: "int \<Rightarrow> int" where
  "wrap64 x = signed_take_bit 63 x"

text \<open>The loop of \<open>Resize\<close>: \<open>for i := 0; i < diff; i++ { lru.removeOldest() }\<close>.\<close>

function Resize_loop :: "int \<Rightarrow> int \<Rightarrow> ('k, 'v, 'w) LruCache \<Rightarrow> ('k, 'v, 'w) LruCache option" where
  "Resize_loop i diff c =
     (if i < diff then
        (case removeOldest c of None \<Rightarrow> None | Some c1 \<Rightarrow> Resize_loop (i + 1) diff c1)
      else Some c)"
  by pat_completeness auto
termination
  by (relation "measure (\<lambda>(i, diff, c). nat (diff - i))") auto

declare Resize_loop.simps [simp del]

text \<open>
  \<open>Resize\<close>: \<open>diff := lru.Len() - size; if size < 0 { size = 0 }; (the loop);
  lru.size = size; return lru.size\<close>.
\<close>

definition Resize :: "int \<Rightarrow> ('k, 'v, 'w) LruCache \<Rightarrow> (int \<times> ('k, 'v, 'w) LruCache) option" where
  "Resize size0 c = do {
     n \<leftarrow> Len c;
     let diff = wrap64 (n - size0);
     let size1 = (if size0 < 0 then 0 else size0);
     c1 \<leftarrow> Resize_loop 0 diff c;
     let c2 = c1\<lparr>sizeC := size1\<rparr>;
     Some (sizeC c2, c2)
   }"

definition Remove_key :: "'k \<Rightarrow> ('k, 'v, 'w) LruCache \<Rightarrow> (bool \<times> ('k, 'v, 'w) LruCache) option" where
  "Remove_key key c =
     (case items c key of
        Some entry \<Rightarrow> do { c1 \<leftarrow> removeElement entry c; Some (True, c1) }
      | None \<Rightarrow> Some (False, c))"

text \<open>
  \<open>Purge\<close> ranges over the map \<open>items\<close>, in an order that Go leaves open: the order is the
  parameter \<open>order\<close>, a list of the keys of the map.
\<close>

fun Purge_loop :: "'k list \<Rightarrow> ('k, 'v, 'w) LruCache \<Rightarrow> ('k, 'v, 'w) LruCache option" where
  "Purge_loop [] c = Some c"
| "Purge_loop (k # ks) c =
     (case items c k of
        None \<Rightarrow> Purge_loop ks c
      | Some v \<Rightarrow>
          (case ents (mem c) v of
             None \<Rightarrow> None
           | Some E \<Rightarrow>
               let c1 = (case onEvict c of None \<Rightarrow> c | Some f \<Rightarrow> c\<lparr>env := f k (Val E) (env c)\<rparr>)
               in Purge_loop ks (c1\<lparr>items := (items c1)(k := None)\<rparr>)))"

definition Purge :: "'k list \<Rightarrow> ('k, 'v, 'w) LruCache \<Rightarrow> ('k, 'v, 'w) LruCache option" where
  "Purge order c = do {
     h1 \<leftarrow> Init (evictList c) (mem c);
     Purge_loop order (c\<lparr>mem := h1\<rparr>)
   }"

text \<open>A run of \<open>Add\<close> calls, the first pair of the list first.\<close>

fun Adds :: "('k \<times> 'v) list \<Rightarrow> ('k, 'v, 'w) LruCache \<Rightarrow> ('k, 'v, 'w) LruCache option" where
  "Adds [] c = Some c"
| "Adds ((k, v) # kvs) c = (case Add k v c of None \<Rightarrow> None | Some (_, c1) \<Rightarrow> Adds kvs c1)"

section \<open>The concurrent wrapper (package golru)\<close>

text \<open>
  One call of a method of \<open>Cache\<close>, as the goroutine that makes it runs it.
  \<open>rwm\<close> is the state of the \<open>sync.RWMutex\<close>: free, read-locked by a number of holders,
  or write-locked. An acquisition that would block forever and a release of a lock that
  is not held (a fatal error of the runtime) are \<open>None\<close>.
  The buffers \<open>keysEvicted\<close> and \<open>valsEvicted\<close> are the state the controller's callback
  \<open>c.onEvict\<close> acts on, so they are the \<open>env\<close> of the wrapped controller.
  \<open>user\<close> is the state the user's callback \<open>onEvictCb\<close> acts on.
  \<open>trace\<close> is a ghost field: at every call of a method of the wrapped controller it
  records the state of the lock at that moment.
  The methods of \<open>Cache\<close> carry the prefix \<open>Cache_\<close>.
\<close>

datatype rwmutex = Unlocked | RLocked nat | WLocked

record ('k, 'v) evicted =
  keysEvicted :: "'k list"
  valsEvicted :: "'v list"

record ('k, 'v, 'u) Cache =
  rwm :: rwmutex
  lru :: "('k, 'v, ('k, 'v) evicted) LruCache"
  onEvictCb :: "('k \<Rightarrow> 'v \<Rightarrow> 'u \<Rightarrow> 'u) option"
  user :: 'u
  trace :: "rwmutex list"

definition Lock :: "('k, 'v, 'u) Cache \<Rightarrow> ('k, 'v, 'u) Cache option" where
  "Lock c = (case rwm c of Unlocked \<Rightarrow> Some (c\<lparr>rwm := WLocked\<rparr>) | _ \<Rightarrow> None)"

definition Unlock :: "('k, 'v, 'u) Cache \<Rightarrow> ('k, 'v, 'u) Cache option" where
  "Unlock c = (case rwm c of WLocked \<Rightarrow> Some (c\<lparr>rwm := Unlocked\<rparr>) | _ \<Rightarrow> None)"

definition RLock :: "('k, 'v, 'u) Cache \<Rightarrow> ('k, 'v, 'u) Cache option" where
  "RLock c = (case rwm c of
                Unlocked \<Rightarrow> Some (c\<lparr>rwm := RLocked 1\<rparr>)
              | RLocked n \<Rightarrow> Some (c\<lparr>rwm := RLocked (Suc n)\<rparr>)
              | WLocked \<Rightarrow> None)"

definition RUnlock :: "('k, 'v, 'u) Cache \<Rightarrow> ('k, 'v, 'u) Cache option" where
  "RUnlock c = (case rwm c of
                  RLocked n \<Rightarrow> (if n = 0 then None
                                else if n = 1 then Some (c\<lparr>rwm := Unlocked\<rparr>)
                                else Some (c\<lparr>rwm := RLocked (n - 1)\<rparr>))
                | _ \<Rightarrow> None)"

definition observe :: "('k, 'v, 'u) Cache \<Rightarrow> ('k, 'v, 'u) Cache" where
  "observe c = c\<lparr>trace := trace c @ [rwm c]\<rparr>"

definition initEvictBuffer :: "('k, 'v) evicted" where
  "initEvictBuffer = \<lparr>keysEvicted = [], valsEvicted = []\<rparr>"

definition Cache_onEvict :: "'k \<Rightarrow> 'v \<Rightarrow> ('k, 'v) evicted \<Rightarrow> ('k, 'v) evicted" where
  "Cache_onEvict key val b = b\<lparr>keysEvicted := keysEvicted b @ [key], valsEvicted := valsEvicted b @ [val]\<rparr>"

definition NewLruWithEvict :: "int \<Rightarrow> ('k \<Rightarrow> 'v \<Rightarrow> 'u \<Rightarrow> 'u) option \<Rightarrow> ('k::default, 'v::default) heap \<Rightarrow> 'u
    \<Rightarrow> (string + ('k, 'v, 'u) Cache) option" where
  "NewLruWithEvict sz cb h u = do {
     r \<leftarrow> NewLru sz (if cb \<noteq> None then Some Cache_onEvict else None) h initEvictBuffer;
     (case r of
        Inl err \<Rightarrow> Some (Inl err)
      | Inr l \<Rightarrow> Some (Inr \<lparr>rwm = Unlocked, lru = l, onEvictCb = cb, user = u, trace = []\<rparr>))
   }"

definition Cache_NewLru :: "int \<Rightarrow> ('k::default, 'v::default) heap \<Rightarrow> 'u \<Rightarrow> (string + ('k, 'v, 'u) Cache) option" where
  "Cache_NewLru sz h u = NewLruWithEvict sz None h u"

text \<open>The call \<open>c.onEvictCb(k, v)\<close>; calling a nil function panics.\<close>

definition call_cb :: "'k \<Rightarrow> 'v \<Rightarrow> ('k, 'v, 'u) Cache \<Rightarrow> ('k, 'v, 'u) Cache option" where
  "call_cb k v c = (case onEvictCb c of None \<Rightarrow> None | Some f \<Rightarrow> Some (c\<lparr>user := f k v (user c)\<rparr>))"

text \<open>\<open>for i := 0; i < len(keys); i++ { c.onEvictCb(keys[i], vals[i]) }\<close>; an index outside
  \<open>vals\<close> panics.\<close>

fun call_cbs :: "'k list \<Rightarrow> 'v list \<Rightarrow> ('k, 'v, 'u) Cache \<Rightarrow> ('k, 'v, 'u) Cache option" where
  "call_cbs [] vals c = Some c"
| "call_cbs (k # keys) [] c = None"
| "call_cbs (k # keys) (v # vals) c =
     (case call_cb k v c of None \<Rightarrow> None | Some c1 \<Rightarrow> call_cbs keys vals c1)"

text \<open>
  The four statements that the methods evicting at most one pair share:
  \<open>k = c.keysEvicted[0]; v = c.valsEvicted[0]; c.keysEvicted = c.keysEvicted[:0];
  c.valsEvicted = c.valsEvicted[:0]\<close>. Index 0 of an empty slice panics.
\<close>

definition take_first :: "('k, 'v, 'u) Cache \<Rightarrow> ('k \<times> 'v \<times> ('k, 'v, 'u) Cache) option" where
  "take_first c =
     (case keysEvicted (env (lru c)) of
        [] \<Rightarrow> None
      | k # _ \<Rightarrow>
          (case valsEvicted (env (lru c)) of
             [] \<Rightarrow> None
           | v # _ \<Rightarrow> Some (k, v, c\<lparr>lru := (lru c)\<lparr>env := \<lparr>keysEvicted = [], valsEvicted = []\<rparr>\<rparr>\<rparr>)))"

definition Cache_Add :: "'k::default \<Rightarrow> 'v::default \<Rightarrow> ('k, 'v, 'u) Cache \<Rightarrow> (bool \<times> ('k, 'v, 'u) Cache) option" where
  "Cache_Add key val c = do {
     c1 \<leftarrow> Lock c;
     (evicted, l2) \<leftarrow> Add key val (lru (observe c1));
     let c2 = (observe c1)\<lparr>lru := l2\<rparr>;
     (k, v, c3) \<leftarrow> (if onEvictCb c2 \<noteq> None \<and> evicted then take_first c2
                    else Some (default, default, c2));
     c4 \<leftarrow> Unlock c3;
     c5 \<leftarrow> (if onEvictCb c4 \<noteq> None \<and> evicted then call_cb k v c4 else Some c4);
     Some (evicted, c5)
   }"

definition Cache_ContainsOrAdd :: "'k::default \<Rightarrow> 'v::default \<Rightarrow> ('k, 'v, 'u) Cache
    \<Rightarrow> ((bool \<times> bool) \<times> ('k, 'v, 'u) Cache) option" where
  "Cache_ContainsOrAdd key val c = do {
     c1 \<leftarrow> Lock c;
     let c1a = observe c1;
     if Contains key (lru c1a) then do { c2 \<leftarrow> Unlock c1a; Some ((True, False), c2) }
     else do {
       (evicted, l2) \<leftarrow> Add key val (lru (observe c1a));
       let c2 = (observe c1a)\<lparr>lru := l2\<rparr>;
       (k, v, c3) \<leftarrow> (if onEvictCb c2 \<noteq> None \<and> evicted then take_first c2
                      else Some (default, default, c2));
       c4 \<leftarrow> Unlock c3;
       c5 \<leftarrow> (if onEvictCb c4 \<noteq> None \<and> evicted then call_cb k v c4 else Some c4);
       Some ((False, evicted), c5)
     }
   }"

definition Cache_PeekOrAdd :: "'k::default \<Rightarrow> 'v::default \<Rightarrow> ('k, 'v, 'u) Cache
    \<Rightarrow> (('v \<times> bool \<times> bool) \<times> ('k, 'v, 'u) Cache) option" where
  "Cache_PeekOrAdd key val c = do {
     c1 \<leftarrow> Lock c;
     let c1a = observe c1;
     (prev, ok) \<leftarrow> Peek key (lru c1a);
     if ok then do { c2 \<leftarrow> Unlock c1a; Some ((prev, True, False), c2) }
     else do {
       (evicted, l2) \<leftarrow> Add key val (lru (observe c1a));
       let c2 = (observe c1a)\<lparr>lru := l2\<rparr>;
       (k, v, c3) \<leftarrow> (if onEvictCb c2 \<noteq> None \<and> evicted then take_first c2
                      else Some (default, default, c2));
       c4 \<leftarrow> Unlock c3;
       c5 \<leftarrow> (if onEvictCb c4 \<noteq> None \<and> evicted then call_cb k v c4 else Some c4);
       Some ((prev, False, evicted), c5)
     }
   }"

definition Cache_Remove :: "'k::default \<Rightarrow> ('k, 'v::default, 'u) Cache \<Rightarrow> (bool \<times> ('k, 'v, 'u) Cache) option" where
  "Cache_Remove key c = do {
     c1 \<leftarrow> Lock c;
     (present, l2) \<leftarrow> Remove_key key (lru (observe c1));
     let c2 = (observe c1)\<lparr>lru := l2\<rparr>;
     (k, v, c3) \<leftarrow> (if onEvictCb c2 \<noteq> None \<and> present then take_first c2
                    else Some (default, default, c2));
     c4 \<leftarrow> Unlock c3;
     c5 \<leftarrow> (if onEvictCb c4 \<noteq> None \<and> present then call_cb k v c4 else Some c4);
     Some (present, c5)
   }"

definition Cache_RemoveOldest :: "('k::default, 'v::default, 'u) Cache
    \<Rightarrow> (('k \<times> 'v \<times> bool) \<times> ('k, 'v, 'u) Cache) option" where
  "Cache_RemoveOldest c = do {
     c1 \<leftarrow> Lock c;
     ((key, val, ok), l2) \<leftarrow> RemoveOldest (lru (observe c1));
     let c2 = (observe c1)\<lparr>lru := l2\<rparr>;
     (k, v, c3) \<leftarrow> (if onEvictCb c2 \<noteq> None \<and> ok then take_first c2
                    else Some (default, default, c2));
     c4 \<leftarrow> Unlock c3;
     c5 \<leftarrow> (if onEvictCb c4 \<noteq> None \<and> ok then call_cb k v c4 else Some c4);
     Some ((key, val, ok), c5)
   }"

text \<open>
  \<open>Resize\<close>: under the lock, \<open>evicted := c.lru.Resize(size)\<close> and, if
  \<open>c.onEvictCb != nil && evicted > 0\<close>, the buffers move to the locals \<open>keys\<close>, \<open>vals\<close>
  and are replaced by fresh ones; after the unlock, under the same condition, the callback
  runs over \<open>keys\<close> and \<open>vals\<close>.
\<close>

definition Cache_Resize :: "int \<Rightarrow> ('k, 'v, 'u) Cache \<Rightarrow> (int \<times> ('k, 'v, 'u) Cache) option" where
  "Cache_Resize size0 c = do {
     c1 \<leftarrow> Lock c;
     (evicted, l2) \<leftarrow> Resize size0 (lru (observe c1));
     let c2 = (observe c1)\<lparr>lru := l2\<rparr>;
     let (keys, vals, c3) =
       (if onEvictCb c2 \<noteq> None \<and> evicted > 0
        then (keysEvicted (env (lru c2)), valsEvicted (env (lru c2)),
              c2\<lparr>lru := (lru c2)\<lparr>env := initEvictBuffer\<rparr>\<rparr>)
        else ([], [], c2));
     c4 \<leftarrow> Unlock c3;
     c5 \<leftarrow> (if onEvictCb c4 \<noteq> None \<and> evicted > 0 then call_cbs keys vals c4 else Some c4);
     Some (evicted, c5)
   }"

definition Cache_Purge :: "'k list \<Rightarrow> ('k, 'v, 'u) Cache \<Rightarrow> ('k, 'v, 'u) Cache option" where
  "Cache_Purge order c = do {
     c1 \<leftarrow> Lock c;
     l2 \<leftarrow> Purge order (lru (observe c1));
     let c2 = (observe c1)\<lparr>lru := l2\<rparr>;
     let (keys, vals, c3) =
       (if onEvictCb c2 \<noteq> None \<and> length (keysEvicted (env (lru c2))) > 0
        then (keysEvicted (env (lru c2)), valsEvicted (env (lru c2)),
              c2\<lparr>lru := (lru c2)\<lparr>env := initEvictBuffer\<rparr>\<rparr>)
        else ([], [], c2));
     c4 \<leftarrow> Unlock c3;
     c5 \<leftarrow> (if onEvictCb c4 \<noteq> None then call_cbs keys vals c4 else Some c4);
     Some c5
   }"

text \<open>\<open>Get\<close>, \<open>Contains\<close> and \<open>Peek\<close> defer the unlock: it runs after the controller's call.\<close>

definition Cache_Get :: "'k \<Rightarrow> ('k, 'v::default, 'u) Cache \<Rightarrow> (('v \<times> bool) \<times> ('k, 'v, 'u) Cache) option" where
  "Cache_Get key c = do {
     c1 \<leftarrow> Lock c;
     (r, l2) \<leftarrow> Get key (lru (observe c1));
     c3 \<leftarrow> Unlock ((observe c1)\<lparr>lru := l2\<rparr>);
     Some (r, c3)
   }"

definition Cache_Contains :: "'k \<Rightarrow> ('k, 'v, 'u) Cache \<Rightarrow> (bool \<times> ('k, 'v, 'u) Cache) option" where
  "Cache_Contains key c = do {
     c1 \<leftarrow> RLock c;
     let r = Contains key (lru (observe c1));
     c2 \<leftarrow> RUnlock (observe c1);
     Some (r, c2)
   }"

definition Cache_Peek :: "'k \<Rightarrow> ('k, 'v::default, 'u) Cache \<Rightarrow> (('v \<times> bool) \<times> ('k, 'v, 'u) Cache) option" where
  "Cache_Peek key c = do {
     c1 \<leftarrow> RLock c;
     r \<leftarrow> Peek key (lru (observe c1));
     c2 \<leftarrow> RUnlock (observe c1);
     Some (r, c2)
   }"

text \<open>\<open>GetOldest\<close>, \<open>Keys\<close>, \<open>Vals\<close> and \<open>Len\<close>: \<open>c.rwm.RLock(); c.rwm.RUnlock(); return c.lru.\<dots>\<close>,
  without \<open>defer\<close>.\<close>

definition Cache_GetOldest :: "('k::default, 'v::default, 'u) Cache
    \<Rightarrow> (('k \<times> 'v \<times> bool) \<times> ('k, 'v, 'u) Cache) option" where
  "Cache_GetOldest c = do {
     c1 \<leftarrow> RLock c;
     c2 \<leftarrow> RUnlock c1;
     r \<leftarrow> GetOldest (lru (observe c2));
     Some (r, observe c2)
   }"

definition Cache_Keys :: "('k::default, 'v, 'u) Cache \<Rightarrow> ('k list \<times> ('k, 'v, 'u) Cache) option" where
  "Cache_Keys c = do {
     c1 \<leftarrow> RLock c;
     c2 \<leftarrow> RUnlock c1;
     r \<leftarrow> Keys (lru (observe c2));
     Some (r, observe c2)
   }"

definition Cache_Vals :: "('k, 'v::default, 'u) Cache \<Rightarrow> ('v list \<times> ('k, 'v, 'u) Cache) option" where
  "Cache_Vals c = do {
     c1 \<leftarrow> RLock c;
     c2 \<leftarrow> RUnlock c1;
     r \<leftarrow> Vals (lru (observe c2));
     Some (r, observe c2)
   }"

definition Cache_Len :: "('k, 'v, 'u) Cache \<Rightarrow> (int \<times> ('k, 'v, 'u) Cache) option" where
  "Cache_Len c = do {
     c1 \<leftarrow> RLock c;
     c2 \<leftarrow> RUnlock c1;
     r \<leftarrow> Len (lru (observe c2));
     Some (r, observe c2)
   }"

definition Cache_Cap :: "('k, 'v, 'u) Cache \<Rightarrow> int" where
  "Cache_Cap c = Cap (lru c)"

section \<open>The list a ring represents\<close>

text \<open>
  The views of the store the invariant speaks about: the \<open>next\<close>, \<open>prev\<close> and \<open>list\<close>
  pointer of the object at an address, and its key and value.
\<close>

definition nx :: "('k, 'v) heap \<Rightarrow> addr \<Rightarrow> addr option" where
  "nx h a = Option.bind (ents h a) nextE"

definition pv :: "('k, 'v) heap \<Rightarrow> addr \<Rightarrow> addr option" where
  "pv h a = Option.bind (ents h a) prevE"

definition lst :: "('k, 'v) heap \<Rightarrow> addr \<Rightarrow> addr option" where
  "lst h a = Option.bind (ents h a) listE"

definition payload :: "('k, 'v) heap \<Rightarrow> addr \<Rightarrow> ('k \<times> 'v) option" where
  "payload h a = map_option (\<lambda>e. (Key e, Val e)) (ents h a)"

definition lnk :: "(addr \<Rightarrow> addr option) \<Rightarrow> (addr \<Rightarrow> addr option) \<Rightarrow> addr \<Rightarrow> addr \<Rightarrow> bool" where
  "lnk nf pf x y = (nf x = Some y \<and> pf y = Some x)"

text \<open>
  \<open>wf_list h l as\<close>: in the store \<open>h\<close> the list object at \<open>l\<close> is a closed ring that runs
  from the sentinel through the entries \<open>as\<close>, front (newest) first, and back to the
  sentinel; each neighbour's \<open>next\<close> and \<open>prev\<close> agree, every entry's \<open>list\<close> is \<open>l\<close>, and
  \<open>len\<close> is the number of entries.
\<close>

definition wf_list :: "('k, 'v) heap \<Rightarrow> addr \<Rightarrow> addr list \<Rightarrow> bool" where
  "wf_list h l as =
     (distinct (l # as) \<and> successively (lnk (nx h) (pv h)) (l # as @ [l]) \<and>
      lens h l = Some (int (length as)) \<and> list_all (\<lambda>a. lst h a = Some l) as)"

definition heap_ok :: "('k, 'v) heap \<Rightarrow> bool" where
  "heap_ok h = (dom (ents h) \<subseteq> {..<brk h})"

section \<open>The pairs a cache holds\<close>

definition pairs :: "('k, 'v) heap \<Rightarrow> addr list \<Rightarrow> ('k \<times> 'v) list" where
  "pairs h as = map (\<lambda>a. the (payload h a)) as"

text \<open>
  \<open>cache_rep c as\<close>: the list of the cache is the ring of the entries \<open>as\<close>, and the index
  \<open>items\<close> maps a key to an entry exactly when that entry is in the ring and carries the key.
\<close>

definition cache_rep :: "('k, 'v, 'w) LruCache \<Rightarrow> addr list \<Rightarrow> bool" where
  "cache_rep c as =
     (wf_list (mem c) (evictList c) as \<and> heap_ok (mem c) \<and>
      (\<forall>k a. (items c k = Some a) = (a \<in> set as \<and> map_option fst (payload (mem c) a) = Some k)))"

text \<open>\<open>holds c xs\<close>: the cache \<open>c\<close> is well formed and holds exactly the pairs \<open>xs\<close>, the most
  recently used first.\<close>

definition holds :: "('k, 'v, 'w) LruCache \<Rightarrow> ('k \<times> 'v) list \<Rightarrow> bool" where
  "holds c xs = (\<exists>as. cache_rep c as \<and> pairs (mem c) as = xs)"

text \<open>One invocation of a callback that may be nil, as the controller guards it.\<close>

definition apply_cb :: "('k \<Rightarrow> 'v \<Rightarrow> 'w \<Rightarrow> 'w) option \<Rightarrow> 'w \<Rightarrow> 'k \<times> 'v \<Rightarrow> 'w" where
  "apply_cb cb w kv = (case cb of None \<Rightarrow> w | Some f \<Rightarrow> f (fst kv) (snd kv) w)"

section \<open>Example states\<close>

instantiation nat :: default
begin
definition default_nat :: nat where
  "default_nat = 0"
instance ..
end

text \<open>A callback that records its invocations, in order.\<close>

definition rec_cb :: "'k \<Rightarrow> 'v \<Rightarrow> ('k \<times> 'v) list \<Rightarrow> ('k \<times> 'v) list" where
  "rec_cb k v w = w @ [(k, v)]"

text \<open>A list at address 0 into which the pairs (1, 10) and then (2, 20) are pushed, at the
  addresses 1 and 2; then the entry at 1 is removed.\<close>

definition ex_list0 :: "(nat, nat) heap" where
  "ex_list0 = snd (the (NewList empty_heap))"

definition ex_list1 :: "(nat, nat) heap" where
  "ex_list1 = snd (the (PushFront 0 1 10 ex_list0))"

definition ex_list2 :: "(nat, nat) heap" where
  "ex_list2 = snd (the (PushFront 0 2 20 ex_list1))"

definition ex_list3 :: "(nat, nat) heap" where
  "ex_list3 = snd (the (Remove 0 1 ex_list2))"

text \<open>A cache of capacity 2 whose callback records its invocations; then the same cache
  after \<open>Add(1, 10)\<close> and \<open>Add(2, 20)\<close>.\<close>

definition ex_cache0 :: "(nat, nat, (nat \<times> nat) list) LruCache" where
  "ex_cache0 = projr (the (NewLru 2 (Some rec_cb) empty_heap []))"

definition ex_cache2 :: "(nat, nat, (nat \<times> nat) list) LruCache" where
  "ex_cache2 = the (Adds [(1, 10), (2, 20)] ex_cache0)"

text \<open>A wrapper of capacity 2 whose user callback records its invocations; the same after
  \<open>Add(1, 10)\<close> and \<open>Add(2, 20)\<close>; and that one after \<open>Resize(0)\<close>.\<close>

definition ex_wcache0 :: "(nat, nat, (nat \<times> nat) list) Cache" where
  "ex_wcache0 = projr (the (NewLruWithEvict 2 (Some rec_cb) empty_heap []))"

definition ex_wcache2 :: "(nat, nat, (nat \<times> nat) list) Cache" where
  "ex_wcache2 = snd (the (Cache_Add 2 20 (snd (the (Cache_Add 1 10 ex_wcache0)))))"

definition ex_wcache_resized :: "(nat, nat, (nat \<times> nat) list) Cache" where
  "ex_wcache_resized = snd (the (Cache_Resize 0 ex_wcache2))"

section \<open>Rings of neighbours\<close>

lemma successively_mono_adj:
  assumes "successively P xs"
    and "\<And>x y. x \<in> set (butlast xs) \<Longrightarrow> y \<in> set (tl xs) \<Longrightarrow> P x y \<Longrightarrow> Q x y"
  shows "successively Q xs"
  using assms
proof (induction P xs rule: successively.induct)
  case (3 P x y xs)
  then show ?case by auto
qed auto

lemma last_notin_butlast: "distinct xs \<Longrightarrow> xs \<noteq> [] \<Longrightarrow> last xs \<notin> set (butlast xs)"
  by (induction xs) (auto dest: in_set_butlastD)

lemma hd_notin_tl: "distinct xs \<Longrightarrow> xs \<noteq> [] \<Longrightarrow> hd xs \<notin> set (tl xs)"
  by (cases xs) auto

lemma ring_cut:
  assumes s: "successively (lnk nf pf) (R @ e # S)"
    and ne: "R \<noteq> []" "S \<noteq> []"
    and d: "distinct R" "distinct S" "e \<notin> set R" "e \<notin> set S"
    and x: "last R \<notin> set (butlast S)" "hd S \<notin> set (tl R)"
    and n: "nf' = nf(last R := Some (hd S), e := None)"
    and p: "pf' = pf(hd S := Some (last R), e := None)"
  shows "successively (lnk nf' pf') (R @ S)"
proof -
  from s ne have sR: "successively (lnk nf pf) R" and sS: "successively (lnk nf pf) S"
    by (auto simp: successively_append_iff successively_Cons)
  have R': "successively (lnk nf' pf') R"
  proof (rule successively_mono_adj [OF sR])
    fix x y assume "x \<in> set (butlast R)" "y \<in> set (tl R)" "lnk nf pf x y"
    moreover have "x \<noteq> last R" using last_notin_butlast [OF d(1) ne(1)] calculation(1) by auto
    moreover have "x \<noteq> e" using calculation(1) d(3) by (auto dest: in_set_butlastD)
    moreover have "y \<noteq> hd S" using x(2) calculation(2) by auto
    moreover have "y \<noteq> e" using calculation(2) d(3) by (cases R) auto
    ultimately show "lnk nf' pf' x y" by (simp add: lnk_def n p)
  qed
  have S': "successively (lnk nf' pf') S"
  proof (rule successively_mono_adj [OF sS])
    fix x y assume "x \<in> set (butlast S)" "y \<in> set (tl S)" "lnk nf pf x y"
    moreover have "x \<noteq> last R" using x(1) calculation(1) by auto
    moreover have "x \<noteq> e" using calculation(1) d(4) by (auto dest: in_set_butlastD)
    moreover have "y \<noteq> hd S" using hd_notin_tl [OF d(2) ne(2)] calculation(2) by auto
    moreover have "y \<noteq> e" using calculation(2) d(4) by (cases S) auto
    ultimately show "lnk nf' pf' x y" by (simp add: lnk_def n p)
  qed
  have "last R \<noteq> e" "hd S \<noteq> e" using ne d by auto
  then have "lnk nf' pf' (last R) (hd S)" by (simp add: lnk_def n p)
  with R' S' ne show ?thesis by (simp add: successively_append_iff)
qed

lemma ring_cut_facts:
  assumes s: "successively (lnk nf pf) (R @ e # S)" and ne: "R \<noteq> []" "S \<noteq> []"
  shows "nf e = Some (hd S)" "pf e = Some (last R)" "nf (last R) = Some e" "pf (hd S) = Some e"
  using s ne by (auto simp: successively_append_iff successively_Cons lnk_def)

lemma ring_push:
  assumes s: "successively (lnk nf pf) (l # S)" and ne: "S \<noteq> []"
    and d: "distinct S" "e \<notin> set S" "e \<noteq> l" "l \<notin> set (butlast S)"
    and n: "nf' = nf(e := Some (hd S), l := Some e)"
    and p: "pf' = pf(e := Some l, hd S := Some e)"
  shows "successively (lnk nf' pf') (l # e # S)"
proof -
  from s ne have sS: "successively (lnk nf pf) S"
    by (auto simp: successively_Cons)
  have S': "successively (lnk nf' pf') S"
  proof (rule successively_mono_adj [OF sS])
    fix x y assume "x \<in> set (butlast S)" "y \<in> set (tl S)" "lnk nf pf x y"
    moreover have "x \<noteq> l" using d(4) calculation(1) by auto
    moreover have "x \<noteq> e" using calculation(1) d(2) by (auto dest: in_set_butlastD)
    moreover have "y \<noteq> hd S" using hd_notin_tl [OF d(1) ne] calculation(2) by auto
    moreover have "y \<noteq> e" using calculation(2) d(2) by (cases S) auto
    ultimately show "lnk nf' pf' x y" by (simp add: lnk_def n p)
  qed
  have "hd S \<noteq> e" using ne d by auto
  then have "lnk nf' pf' l e" "lnk nf' pf' e (hd S)" using d(3) by (auto simp add: lnk_def n p)
  with S' ne show ?thesis by (simp add: successively_Cons)
qed

section \<open>What the list operations do to the store\<close>

lemma ents_view:
  "ents h a = Some E \<Longrightarrow> nx h a = nextE E \<and> pv h a = prevE E \<and> lst h a = listE E \<and> payload h a = Some (Key E, Val E)"
  by (simp add: nx_def pv_def lst_def payload_def)

lemma nx_alloc: "nx h a = Some x \<Longrightarrow> ents h a \<noteq> None"
  by (cases "ents h a") (simp_all add: nx_def)

lemma pv_alloc: "pv h a = Some x \<Longrightarrow> ents h a \<noteq> None"
  by (cases "ents h a") (simp_all add: pv_def)

lemma modify_next:
  assumes "ents h a \<noteq> None"
  shows "\<exists>h'. modify a (\<lambda>x. x\<lparr>nextE := v\<rparr>) h = Some h' \<and> nx h' = (nx h)(a := v) \<and> pv h' = pv h \<and>
     lst h' = lst h \<and> payload h' = payload h \<and> lens h' = lens h \<and> brk h' = brk h \<and> dom (ents h') = dom (ents h)"
  using assms by (auto simp: modify_def nx_def pv_def lst_def payload_def fun_eq_iff)

lemma modify_prev:
  assumes "ents h a \<noteq> None"
  shows "\<exists>h'. modify a (\<lambda>x. x\<lparr>prevE := v\<rparr>) h = Some h' \<and> nx h' = nx h \<and> pv h' = (pv h)(a := v) \<and>
     lst h' = lst h \<and> payload h' = payload h \<and> lens h' = lens h \<and> brk h' = brk h \<and> dom (ents h') = dom (ents h)"
  using assms by (auto simp: modify_def nx_def pv_def lst_def payload_def fun_eq_iff)

lemma view_ents:
  assumes "nx h a = Some n"
  obtains E where "ents h a = Some E" "nextE E = Some n" "prevE E = pv h a"
  using assms by (auto simp: nx_def pv_def Option.bind_eq_Some_conv)

lemma move_effect:
  assumes "nx h e = Some n" "pv h e = Some p" "nx h p = Some e" "pv h n = Some e"
    "nx h l = Some f" "pv h f = Some l" "p \<noteq> e" "n \<noteq> e" "e \<noteq> l" "f \<noteq> e"
  shows "\<exists>h'. move l0 e l h = Some h' \<and>
           nx h' = (nx h)(p := Some n, e := Some f, l := Some e) \<and>
           pv h' = (pv h)(n := Some p, e := Some l, f := Some e) \<and>
           lst h' = lst h \<and> lens h' = lens h \<and> brk h' = brk h \<and>
           payload h' = payload h \<and> dom (ents h') = dom (ents h)"
proof -
  from assms have pl: "p \<noteq> l" and fn: "f \<noteq> n" by auto
  have al: "ents h p \<noteq> None" "ents h n \<noteq> None" "ents h e \<noteq> None" "ents h l \<noteq> None" "ents h f \<noteq> None"
    using assms by (blast dest: nx_alloc pv_alloc)+
  from assms(1) obtain E where E: "ents h e = Some E" "nextE E = Some n" "prevE E = pv h e" by (rule view_ents)
  from modify_next [OF al(1), of "nextE E"] obtain h1 where
    h1: "modify p (\<lambda>x. x\<lparr>nextE := nextE E\<rparr>) h = Some h1" "nx h1 = (nx h)(p := Some n)" "pv h1 = pv h"
      "lst h1 = lst h" "payload h1 = payload h" "lens h1 = lens h" "brk h1 = brk h" "dom (ents h1) = dom (ents h)"
    using E by auto
  have "nx h1 e = Some n" using assms by (simp add: h1)
  then obtain E1 where E1: "ents h1 e = Some E1" "nextE E1 = Some n" "prevE E1 = pv h1 e" by (rule view_ents)
  have "ents h1 n \<noteq> None" using al h1(8) by (metis domIff)
  from modify_prev [OF this, of "prevE E1"] obtain h2 where
    h2: "modify n (\<lambda>x. x\<lparr>prevE := prevE E1\<rparr>) h1 = Some h2" "nx h2 = nx h1" "pv h2 = (pv h1)(n := Some p)"
      "lst h2 = lst h1" "payload h2 = payload h1" "lens h2 = lens h1" "brk h2 = brk h1" "dom (ents h2) = dom (ents h1)"
    using E1 assms h1 by auto
  have "ents h2 e \<noteq> None" using al h1(8) h2(8) by (metis domIff)
  from modify_prev [OF this, of "Some l"] obtain h3 where
    h3: "modify e (\<lambda>x. x\<lparr>prevE := Some l\<rparr>) h2 = Some h3" "nx h3 = nx h2" "pv h3 = (pv h2)(e := Some l)"
      "lst h3 = lst h2" "payload h3 = payload h2" "lens h3 = lens h2" "brk h3 = brk h2" "dom (ents h3) = dom (ents h2)"
    by auto
  have "nx h3 l = Some f" using assms pl by (simp add: h1 h2 h3)
  then obtain L where L: "ents h3 l = Some L" "nextE L = Some f" "prevE L = pv h3 l" by (rule view_ents)
  have "ents h3 e \<noteq> None" using al h1(8) h2(8) h3(8) by (metis domIff)
  from modify_next [OF this, of "nextE L"] obtain h4 where
    h4: "modify e (\<lambda>x. x\<lparr>nextE := nextE L\<rparr>) h3 = Some h4" "nx h4 = (nx h3)(e := Some f)" "pv h4 = pv h3"
      "lst h4 = lst h3" "payload h4 = payload h3" "lens h4 = lens h3" "brk h4 = brk h3" "dom (ents h4) = dom (ents h3)"
    using L by auto
  have "nx h4 e = Some f" by (simp add: h4)
  then obtain E4 where E4: "ents h4 e = Some E4" "nextE E4 = Some f" "prevE E4 = pv h4 e" by (rule view_ents)
  have p4: "prevE E4 = Some l" using E4 by (simp add: h4 h3)
  have "ents h4 l \<noteq> None" using al h1(8) h2(8) h3(8) h4(8) by (metis domIff)
  from modify_next [OF this, of "Some e"] obtain h5 where
    h5: "modify l (\<lambda>x. x\<lparr>nextE := Some e\<rparr>) h4 = Some h5" "nx h5 = (nx h4)(l := Some e)" "pv h5 = pv h4"
      "lst h5 = lst h4" "payload h5 = payload h4" "lens h5 = lens h4" "brk h5 = brk h4" "dom (ents h5) = dom (ents h4)"
    by auto
  have "nx h5 e = Some f" using assms by (simp add: h5 h4)
  then obtain E5 where E5: "ents h5 e = Some E5" "nextE E5 = Some f" "prevE E5 = pv h5 e" by (rule view_ents)
  have "ents h5 f \<noteq> None" using al h1(8) h2(8) h3(8) h4(8) h5(8) by (metis domIff)
  from modify_prev [OF this, of "Some e"] obtain h6 where
    h6: "modify f (\<lambda>x. x\<lparr>prevE := Some e\<rparr>) h5 = Some h6" "nx h6 = nx h5" "pv h6 = (pv h5)(f := Some e)"
      "lst h6 = lst h5" "payload h6 = payload h5" "lens h6 = lens h5" "brk h6 = brk h5" "dom (ents h6) = dom (ents h5)"
    by auto
  have "move l0 e l h = Some h6"
    using assms(2,9) E h1(1) E1(1,2) h2(1) h3(1) L(1) h4(1) E4(1) p4 h5(1) E5(1,2) h6(1)
    by (simp add: move_def)
  moreover have "nx h6 = (nx h)(p := Some n, e := Some f, l := Some e)"
    by (simp add: h1 h2 h3 h4 h5 h6)
  moreover have "pv h6 = (pv h)(n := Some p, e := Some l, f := Some e)"
    by (simp add: h1 h2 h3 h4 h5 h6)
  ultimately show ?thesis by (simp add: h1 h2 h3 h4 h5 h6)
qed

lemma Remove_effect:
  assumes "nx h e = Some n" "pv h e = Some p" "nx h p = Some e" "pv h n = Some e"
    "lens h l = Some k" "p \<noteq> e" "n \<noteq> e"
  shows "\<exists>h'. Remove l e h = Some (Val (the (ents h e)), h') \<and>
           nx h' = (nx h)(p := Some n, e := None) \<and>
           pv h' = (pv h)(n := Some p, e := None) \<and>
           lst h' = (lst h)(e := None) \<and>
           lens h' = (lens h)(l \<mapsto> k - 1) \<and> brk h' = brk h \<and>
           payload h' = payload h \<and> dom (ents h') = dom (ents h)"
proof -
  from assms obtain E P N where E: "ents h e = Some E" "nextE E = Some n" "prevE E = Some p"
    and P: "ents h p = Some P" and N: "ents h n = Some N"
    by (auto simp: nx_def pv_def Option.bind_eq_Some_conv)
  show ?thesis
    using assms(5-) E P N
    by (auto simp: Remove_def modify_def set_len_def nx_def pv_def lst_def payload_def fun_eq_iff)
qed

lemma insert_effect:
  assumes "ents h e = Some E" "nx h l = Some f" "pv h f = Some l" "e \<noteq> l" "f \<noteq> e"
    "lens h l0 = Some k"
  shows "\<exists>h'. insert_entry l0 e l h = Some (e, h') \<and>
           nx h' = (nx h)(e := Some f, l := Some e) \<and>
           pv h' = (pv h)(e := Some l, f := Some e) \<and>
           lst h' = (lst h)(e := Some l0) \<and> lens h' = (lens h)(l0 \<mapsto> k + 1) \<and> brk h' = brk h \<and>
           payload h' = payload h \<and> dom (ents h') = dom (ents h)"
proof -
  from assms obtain L F where L: "ents h l = Some L" "nextE L = Some f"
    and F: "ents h f = Some F"
    by (auto simp: nx_def pv_def Option.bind_eq_Some_conv)
  show ?thesis
    using assms(1,4-) L F
    by (auto simp: insert_entry_def modify_def set_len_def nx_def pv_def lst_def payload_def fun_eq_iff)
qed

section \<open>The list operations on a well-formed list\<close>

lemma wf_split:
  assumes "wf_list h l as" "e \<in> set as"
  obtains xs ys where "as = xs @ e # ys" "e \<notin> set xs" "e \<notin> set ys"
    "successively (lnk (nx h) (pv h)) ((l # xs) @ e # (ys @ [l]))"
    "distinct (l # xs @ e # ys)"
proof -
  from assms(2) obtain xs ys where as: "as = xs @ e # ys" by (auto simp: in_set_conv_decomp)
  with assms(1) have d: "distinct (l # xs @ e # ys)" by (simp add: wf_list_def)
  from assms(1) as have "successively (lnk (nx h) (pv h)) ((l # xs) @ e # (ys @ [l]))"
    by (simp add: wf_list_def)
  with as d that show thesis by auto
qed

lemma heap_ok_dom: "dom (ents h') = dom (ents h) \<Longrightarrow> brk h' = brk h \<Longrightarrow> heap_ok h \<Longrightarrow> heap_ok h'"
  unfolding heap_ok_def by simp

lemma wf_alloc: "wf_list h l as \<Longrightarrow> a \<in> set (l # as) \<Longrightarrow> ents h a \<noteq> None"
proof -
  assume wf: "wf_list h l as" and a: "a \<in> set (l # as)"
  then have s: "successively (lnk (nx h) (pv h)) (l # as @ [l])" by (simp add: wf_list_def)
  show ?thesis
  proof (cases "a = l")
    case True
    from s have "nx h l \<noteq> None" by (cases as) (auto simp: lnk_def)
    then show ?thesis using True by (cases "ents h l") (auto simp: nx_def)
  next
    case False
    with a have "a \<in> set as" by simp
    with wf have "lst h a = Some l" by (simp add: wf_list_def list_all_iff)
    then show ?thesis by (cases "ents h a") (auto simp: lst_def)
  qed
qed

lemma Remove_wf:
  assumes wf: "wf_list h l as" and e: "e \<in> set as" and ok: "heap_ok h"
  shows "\<exists>h'. Remove l e h = Some (Val (the (ents h e)), h') \<and> wf_list h' l (remove1 e as) \<and>
           heap_ok h' \<and> payload h' = payload h \<and> lst h' e = None \<and> brk h' = brk h"
proof -
  from wf e obtain xs ys where as: "as = xs @ e # ys" and exs: "e \<notin> set xs" and eys: "e \<notin> set ys"
    and s: "successively (lnk (nx h) (pv h)) ((l # xs) @ e # (ys @ [l]))"
    and d: "distinct (l # xs @ e # ys)" by (rule wf_split)
  let ?R = "l # xs" and ?S = "ys @ [l]"
  note f = ring_cut_facts [OF s]
  have len: "lens h l = Some (int (length as))" using wf by (simp add: wf_list_def)
  have pe: "last ?R \<noteq> e" "hd ?S \<noteq> e" using d by (auto simp: hd_append)
  from Remove_effect [OF f(1) f(2) f(3) f(4) len pe] f
  obtain h' where r: "Remove l e h = Some (Val (the (ents h e)), h')"
    and n: "nx h' = (nx h)(last ?R := Some (hd ?S), e := None)"
    and p: "pv h' = (pv h)(hd ?S := Some (last ?R), e := None)"
    and l: "lst h' = (lst h)(e := None)"
    and ln: "lens h' = (lens h)(l \<mapsto> int (length as) - 1)" and b: "brk h' = brk h"
    and pl: "payload h' = payload h" and dm: "dom (ents h') = dom (ents h)"
    by auto
  have "last ?R \<in> set ?R" by (rule last_in_set) simp
  then have x: "last ?R \<notin> set (butlast ?S)" "hd ?S \<notin> set (tl ?R)"
    using d by (auto simp: hd_append simp del: last.simps)
  have "successively (lnk (nx h') (pv h')) (?R @ ?S)"
    using d by (intro ring_cut [OF s _ _ _ _ _ _ x n p]) auto
  moreover have "remove1 e as = xs @ ys" using as exs by (simp add: remove1_append)
  moreover have "list_all (\<lambda>a. lst h' a = Some l) (xs @ ys)"
    using wf as d by (auto simp: wf_list_def list_all_iff l)
  ultimately have "wf_list h' l (remove1 e as)"
    using d ln as by (simp add: wf_list_def)
  with r pl l b heap_ok_dom [OF dm b ok] show ?thesis by auto
qed

lemma successively_snoc_last: "successively P (xs @ [z]) \<Longrightarrow> xs \<noteq> [] \<Longrightarrow> P (last xs) z"
  by (simp add: successively_append_iff)

lemma Back_wf:
  assumes wf: "wf_list h l as"
  shows "Back l h = Some (if as = [] then None else Some (last as))"
proof -
  from wf have s: "successively (lnk (nx h) (pv h)) ((l # as) @ [l])" by (simp add: wf_list_def)
  have "lnk (nx h) (pv h) (last (l # as)) l"
    by (rule successively_snoc_last [OF s]) simp
  then have "pv h l = Some (last (l # as))" by (simp add: lnk_def)
  moreover have "lens h l = Some (int (length as))" using wf by (simp add: wf_list_def)
  ultimately show ?thesis
    by (auto simp: Back_def pv_def Option.bind_eq_Some_conv)
qed

lemma PrevEntry_wf:
  assumes wf: "wf_list h l as" and as: "as = xs @ e # ys"
  shows "PrevEntry e h = Some (if xs = [] then None else Some (last xs))"
proof -
  from wf as have s: "successively (lnk (nx h) (pv h)) ((l # xs) @ e # (ys @ [l]))"
    and d: "distinct (l # xs @ e # ys)" and ls: "lst h e = Some l"
    by (simp_all add: wf_list_def)
  from ring_cut_facts(2) [OF s] have "pv h e = Some (last (l # xs))" by simp
  moreover have "xs \<noteq> [] \<Longrightarrow> last xs \<noteq> l" using d by auto
  ultimately show ?thesis using ls
    by (auto simp: PrevEntry_def pv_def lst_def Option.bind_eq_Some_conv)
qed


lemma MoveToFront_wf:
  assumes wf: "wf_list h l as" and e: "e \<in> set as" and ok: "heap_ok h"
  shows "\<exists>h'. MoveToFront l e h = Some h' \<and> wf_list h' l (e # remove1 e as) \<and>
           heap_ok h' \<and> payload h' = payload h \<and> brk h' = brk h"
proof -
  from wf e obtain xs ys where as: "as = xs @ e # ys" and exs: "e \<notin> set xs" and eys: "e \<notin> set ys"
    and s: "successively (lnk (nx h) (pv h)) ((l # xs) @ e # (ys @ [l]))"
    and d: "distinct (l # xs @ e # ys)" by (rule wf_split)
  let ?R = "l # xs" and ?S = "ys @ [l]"
  note f = ring_cut_facts [OF s]
  from wf e have ls: "lst h e = Some l" by (simp add: wf_list_def list_all_iff)
  then obtain E where E: "ents h e = Some E" "listE E = Some l"
    by (auto simp: lst_def Option.bind_eq_Some_conv)
  from wf_alloc [OF wf, of l] obtain L where L: "ents h l = Some L" by auto
  have rm: "remove1 e as = xs @ ys" using as exs by (simp add: remove1_append)
  show ?thesis
  proof (cases xs)
    case Nil
    with f(3) have "nextE L = Some e" using L by (simp add: nx_def)
    then have "MoveToFront l e h = Some h" using E L by (simp add: MoveToFront_def)
    moreover have "e # remove1 e as = as" using as Nil by simp
    ultimately show ?thesis using wf ok by simp
  next
    case (Cons x xs')
    from s Cons have lx: "lnk (nx h) (pv h) l x" by simp
    then have nl: "nx h l = Some x" and px: "pv h x = Some l" by (simp_all add: lnk_def)
    have xe: "x \<noteq> e" using exs Cons by auto
    then have "nextE L \<noteq> Some e" using nl L by (simp add: nx_def)
    then have mv: "MoveToFront l e h = move l e l h" using E L by (simp add: MoveToFront_def)
    have pe: "last ?R \<noteq> e" "hd ?S \<noteq> e" "e \<noteq> l" using d by (auto simp: hd_append)
    from move_effect [OF f(1) f(2) f(3) f(4) nl px pe xe, of l]
    obtain h' where r: "move l e l h = Some h'"
      and n: "nx h' = (nx h)(last ?R := Some (hd ?S), e := Some x, l := Some e)"
      and p: "pv h' = (pv h)(hd ?S := Some (last ?R), e := Some l, x := Some e)"
      and l: "lst h' = lst h" and ln: "lens h' = lens h" and b: "brk h' = brk h"
      and pl: "payload h' = payload h" and dm: "dom (ents h') = dom (ents h)"
      by auto
    have "last ?R \<in> set ?R" by (rule last_in_set) simp
    then have x: "last ?R \<notin> set (butlast ?S)" "hd ?S \<notin> set (tl ?R)"
      using d by (auto simp: hd_append simp del: last.simps)
    have c: "successively (lnk ((nx h)(last ?R := Some (hd ?S), e := None))
                              ((pv h)(hd ?S := Some (last ?R), e := None))) (?R @ ?S)"
      using d by (intro ring_cut [OF s _ _ _ _ _ _ x refl refl]) auto
    have hdS: "hd (xs @ ys @ [l]) = x" using Cons by simp
    have "successively (lnk (nx h') (pv h')) (l # e # (xs @ ys @ [l]))"
    proof (rule ring_push)
      show "successively (lnk ((nx h)(last ?R := Some (hd ?S), e := None))
                              ((pv h)(hd ?S := Some (last ?R), e := None))) (l # (xs @ ys @ [l]))"
        using c by simp
      show "nx h' = ((nx h)(last ?R := Some (hd ?S), e := None))(e := Some (hd (xs @ ys @ [l])), l := Some e)"
        unfolding hdS n by simp
      show "pv h' = ((pv h)(hd ?S := Some (last ?R), e := None))(e := Some l, hd (xs @ ys @ [l]) := Some e)"
        unfolding hdS p by simp
    qed (use d in \<open>auto simp: butlast_append\<close>)
    moreover have "list_all (\<lambda>a. lst h' a = Some l) (e # xs @ ys)"
      using wf as by (auto simp: wf_list_def l)
    ultimately have "wf_list h' l (e # remove1 e as)"
      using d ln as wf unfolding rm by (simp add: wf_list_def)
    with mv r pl b heap_ok_dom [OF dm b ok] show ?thesis by auto
  qed
qed

lemma PushFront_wf:
  assumes wf: "wf_list h l as" and ok: "heap_ok h"
  shows "\<exists>h'. PushFront l k v h = Some (brk h, h') \<and> wf_list h' l (brk h # as) \<and>
           heap_ok h' \<and> payload h' = (payload h)(brk h \<mapsto> (k, v)) \<and> brk h' = Suc (brk h)"
proof -
  let ?a = "brk h"
  let ?h0 = "h\<lparr>ents := (ents h)(?a \<mapsto> \<lparr>nextE = None, prevE = None, listE = None, Key = k, Val = v\<rparr>),
               brk := Suc ?a\<rparr>"
  from wf have s: "successively (lnk (nx h) (pv h)) (l # (as @ [l]))"
    and d: "distinct (l # as)" and len: "lens h l = Some (int (length as))"
    by (simp_all add: wf_list_def)
  have fresh: "ents h ?a = None" using ok by (auto simp: heap_ok_def)
  have na: "?a \<notin> set (l # as)"
  proof
    assume "?a \<in> set (l # as)"
    from wf_alloc [OF wf this] fresh show False by simp
  qed
  from s have lf: "lnk (nx h) (pv h) l (hd (as @ [l]))" by (cases as) auto
  then have nl: "nx h l = Some (hd (as @ [l]))" and pf: "pv h (hd (as @ [l])) = Some l"
    by (simp_all add: lnk_def)
  from nl obtain L where L: "ents h l = Some L" "nextE L \<noteq> None"
    by (auto simp: nx_def Option.bind_eq_Some_conv)
  then have lz: "lazyInit l h = Some h" by (auto simp: lazyInit_def)
  have fa: "hd (as @ [l]) \<noteq> ?a" using na by (cases as) auto
  have al: "?a \<noteq> l" using na by auto
  have nx0: "nx ?h0 = (nx h)(?a := None)" and pv0: "pv ?h0 = (pv h)(?a := None)"
    and lst0: "lst ?h0 = (lst h)(?a := None)" and pl0: "payload ?h0 = (payload h)(?a \<mapsto> (k, v))"
    by (auto simp: nx_def pv_def lst_def payload_def fun_eq_iff)
  have "nx ?h0 l = Some (hd (as @ [l]))" "pv ?h0 (hd (as @ [l])) = Some l"
    using nl pf al fa by (simp_all add: nx0 pv0)
  from insert_effect [OF _ this al fa, of _ l "int (length as)"] len
  obtain h' where r: "insert_entry l ?a l ?h0 = Some (?a, h')"
    and n: "nx h' = (nx ?h0)(?a := Some (hd (as @ [l])), l := Some ?a)"
    and p: "pv h' = (pv ?h0)(?a := Some l, hd (as @ [l]) := Some ?a)"
    and ls: "lst h' = (lst ?h0)(?a := Some l)"
    and ln: "lens h' = (lens ?h0)(l \<mapsto> int (length as) + 1)" and b: "brk h' = brk ?h0"
    and pl: "payload h' = payload ?h0" and dm: "dom (ents h') = dom (ents ?h0)"
    by auto
  have pf': "PushFront l k v h = Some (?a, h')"
    using lz r by (simp add: PushFront_def insertValue_def Let_def)
  have "successively (lnk (nx h') (pv h')) (l # ?a # (as @ [l]))"
  proof (rule ring_push [OF s])
    show "nx h' = (nx h)(?a := Some (hd (as @ [l])), l := Some ?a)" unfolding n nx0 by simp
    show "pv h' = (pv h)(?a := Some l, hd (as @ [l]) := Some ?a)" unfolding p pv0 by simp
  qed (use d na in auto)
  moreover have "list_all (\<lambda>a. lst h' a = Some l) (?a # as)"
    using wf na by (auto simp: wf_list_def ls lst0 list_all_iff)
  ultimately have "wf_list h' l (?a # as)"
    using d na ln by (simp add: wf_list_def)
  moreover have "heap_ok h'" using ok dm b by (fastforce simp: heap_ok_def less_Suc_eq)
  ultimately show ?thesis using pf' pl pl0 b by simp
qed

lemma set_Val_wf:
  assumes wf: "wf_list h l as" and e: "e \<in> set as" and ok: "heap_ok h"
  shows "\<exists>h'. modify e (\<lambda>x. x\<lparr>Val := v\<rparr>) h = Some h' \<and> wf_list h' l as \<and> heap_ok h' \<and>
           payload h' = (payload h)(e \<mapsto> (fst (the (payload h e)), v)) \<and> brk h' = brk h"
proof -
  from wf_alloc [OF wf, of e] e obtain E where E: "ents h e = Some E" by auto
  let ?h' = "h\<lparr>ents := (ents h)(e \<mapsto> E\<lparr>Val := v\<rparr>)\<rparr>"
  have m: "modify e (\<lambda>x. x\<lparr>Val := v\<rparr>) h = Some ?h'" using E by (simp add: modify_def)
  have "nx ?h' = nx h" "pv ?h' = pv h" "lst ?h' = lst h"
    using E by (auto simp: nx_def pv_def lst_def fun_eq_iff)
  then have "wf_list ?h' l as" using wf by (simp add: wf_list_def)
  moreover have "heap_ok ?h'" using ok E by (auto simp: heap_ok_def)
  moreover have "payload ?h' = (payload h)(e \<mapsto> (fst (the (payload h e)), v))"
    using E by (auto simp: payload_def fun_eq_iff)
  ultimately show ?thesis using m by simp
qed

lemma NewList_wf:
  assumes ok: "heap_ok h"
  shows "\<exists>h'. NewList h = Some (brk h, h') \<and> wf_list h' (brk h) [] \<and> heap_ok h'"
  using ok
  by (fastforce simp: NewList_def Init_def modify_def set_len_def Let_def wf_list_def heap_ok_def
      lnk_def nx_def pv_def less_Suc_eq)

section \<open>MoveToFront on an entry of no list or of another list\<close>

lemma modify_at: "modify a f h = Some h' \<Longrightarrow> \<exists>E. ents h a = Some E \<and> ents h' a = Some (f E)"
  by (auto simp: modify_def split: option.splits)

lemma set_len_ents: "set_len l n h = Some h' \<Longrightarrow> ents h' = ents h"
  by (auto simp: set_len_def split: option.splits)

lemma Remove_clears:
  assumes "Remove l e h = Some (v, h')"
  shows "\<exists>E. ents h' e = Some E \<and> listE E = None"
proof -
  from assms obtain h4 h5 n where m: "modify e (\<lambda>x. x\<lparr>listE := None\<rparr>) h4 = Some h5"
    and s: "set_len l n h5 = Some h'"
    by (auto simp: Remove_def Option.bind_eq_Some_conv)
  from modify_at [OF m] set_len_ents [OF s] show ?thesis by auto
qed

text \<open>
  Claim C10. \<open>MoveToFront\<close> on an entry that does not belong to the list \<open>l\<close> (its \<open>list\<close>
  field is not \<open>l\<close>) returns and leaves the whole store as it was, so the length of \<open>l\<close>,
  its order and the links of its entries are unchanged. In particular this holds for an
  entry that \<open>Remove\<close> has just detached, in the store that \<open>Remove\<close> left.
\<close>

theorem MoveToFront_foreign_entry:
  "(ents h e \<noteq> None \<longrightarrow> lst h e \<noteq> Some l \<longrightarrow> MoveToFront l e h = Some h) \<and>
   (Remove l e h = Some (v, h') \<longrightarrow> MoveToFront l e h' = Some h')"
proof (intro conjI impI)
  assume "ents h e \<noteq> None" "lst h e \<noteq> Some l"
  then show "MoveToFront l e h = Some h"
    by (auto simp: MoveToFront_def lst_def)
next
  assume "Remove l e h = Some (v, h')"
  from Remove_clears [OF this] show "MoveToFront l e h' = Some h'"
    by (auto simp: MoveToFront_def)
qed

theorem MoveToFront_foreign_entry_witness:
  "ents ex_list3 1 \<noteq> None \<and> lst ex_list3 1 \<noteq> Some 0 \<and> MoveToFront 0 1 ex_list3 = Some ex_list3 \<and>
   Remove 0 1 ex_list2 = Some (10, ex_list3)"
proof -
  have a: "ents ex_list3 1 \<noteq> None" by code_simp
  have b: "lst ex_list3 1 \<noteq> Some 0" by code_simp
  have "map_option fst (Remove 0 1 ex_list2) = Some 10" by code_simp
  then have c: "Remove 0 1 ex_list2 = Some (10, ex_list3)"
    by (cases "Remove 0 1 ex_list2") (auto simp: ex_list3_def)
  from MoveToFront_foreign_entry [where h = ex_list3 and e = 1 and l = 0]
    MoveToFront_foreign_entry [where h = ex_list2 and e = 1 and l = 0 and v = 10 and h' = ex_list3]
    a b c show ?thesis by simp
qed

section \<open>PrevEntry\<close>

text \<open>
  Claim C3 says that \<open>PrevEntry\<close> returns the next-older entry and nil exactly at the oldest
  entry. In the list \<open>ex_list2\<close> the entry at address 1 was pushed first and the entry at
  address 2 after it; \<open>Back\<close> returns the entry 1, the oldest. \<open>PrevEntry\<close> of the oldest entry
  is not nil: it is the entry 2, which is newer; and \<open>PrevEntry\<close> of the entry 2, which is
  not the oldest, is nil.
\<close>

theorem PrevEntry_oldest_counterexample:
  "Back 0 ex_list2 = Some (Some 1) \<and> PrevEntry 1 ex_list2 = Some (Some 2) \<and>
   map_option fst (PushFront 0 2 20 ex_list1) = Some 2 \<and> PrevEntry 2 ex_list2 = Some None"
  by code_simp

text \<open>
  Claim C3, amended. In a well-formed list with the entries \<open>as\<close>, front first (the front is
  \<open>root.next\<close>, the newest entry; \<open>Back\<close> is the last of \<open>as\<close>, the oldest), \<open>PrevEntry\<close> of the
  entry at position \<open>i\<close> returns the entry at position \<open>i - 1\<close>, the next-newer one, and
  returns nil exactly when \<open>i = 0\<close>, that is at the newest entry.
\<close>

theorem PrevEntry_next_newer:
  assumes "wf_list h l as" and "i < length as"
  shows "PrevEntry (as ! i) h = Some (if i = 0 then None else Some (as ! (i - 1))) \<and>
         nx h l = Some (hd as) \<and> Back l h = Some (Some (last as))"
proof -
  have as: "as = take i as @ as ! i # drop (Suc i) as" using assms(2) by (rule id_take_nth_drop)
  have "i \<noteq> 0 \<Longrightarrow> last (take i as) = as ! (i - 1)"
    using assms(2) by (cases i) (simp_all add: take_Suc_conv_app_nth)
  with PrevEntry_wf [OF assms(1) as] assms(2)
  have "PrevEntry (as ! i) h = Some (if i = 0 then None else Some (as ! (i - 1)))" by auto
  moreover from assms have ne: "as \<noteq> []" by auto
  then have "nx h l = Some (hd as)" using assms(1) by (cases as) (auto simp: wf_list_def lnk_def)
  moreover have "Back l h = Some (Some (last as))" using Back_wf [OF assms(1)] ne by simp
  ultimately show ?thesis by simp
qed

theorem PrevEntry_next_newer_witness:
  "wf_list ex_list2 0 [2, 1] \<and> PrevEntry 1 ex_list2 = Some (Some 2) \<and> PrevEntry 2 ex_list2 = Some None \<and>
   nx ex_list2 0 = Some 2 \<and> Back 0 ex_list2 = Some (Some 1)"
proof -
  have w: "wf_list ex_list2 0 [2, 1]" by code_simp
  from PrevEntry_next_newer [OF w, of 1] PrevEntry_next_newer [OF w, of 0] w show ?thesis by simp
qed

section \<open>The index and the ring of a cache\<close>

lemma payload_ents: "payload h a = Some (k, v) \<Longrightarrow> \<exists>E. ents h a = Some E \<and> Key E = k \<and> Val E = v"
  by (auto simp: payload_def)

lemma wf_payload: "wf_list h l as \<Longrightarrow> a \<in> set as \<Longrightarrow> \<exists>k v. payload h a = Some (k, v)"
  using wf_alloc [of h l as a] by (auto simp: payload_def)

lemma rep_items: "cache_rep c as \<Longrightarrow> a \<in> set as \<Longrightarrow> payload (mem c) a = Some (k, v) \<Longrightarrow> items c k = Some a"
  by (simp add: cache_rep_def)

lemma rep_inj:
  assumes "cache_rep c as" "a \<in> set as" "b \<in> set as"
    "payload (mem c) a = Some (k, v)" "payload (mem c) b = Some (k, v')"
  shows "a = b"
  using rep_items [OF assms(1,2,4)] rep_items [OF assms(1,3,5)] by simp

lemma rep_lookup:
  assumes "cache_rep c as" "items c k = Some a"
  shows "a \<in> set as \<and> (\<exists>v. payload (mem c) a = Some (k, v))"
proof -
  from assms have a: "a \<in> set as" and "map_option fst (payload (mem c) a) = Some k"
    by (simp_all add: cache_rep_def)
  then show ?thesis by auto
qed

lemma remove1_last: "distinct as \<Longrightarrow> as \<noteq> [] \<Longrightarrow> remove1 (last as) as = butlast as"
  by (induction as) (auto simp: remove1_idem)

lemma removeElement_rep:
  assumes rep: "cache_rep c as" and e: "e \<in> set as"
  shows "\<exists>c'. removeElement e c = Some c' \<and> cache_rep c' (remove1 e as) \<and>
           payload (mem c') = payload (mem c) \<and>
           env c' = apply_cb (onEvict c) (env c) (the (payload (mem c) e)) \<and>
           sizeC c' = sizeC c \<and> onEvict c' = onEvict c \<and> evictList c' = evictList c"
proof -
  from rep have wf: "wf_list (mem c) (evictList c) as" and ok: "heap_ok (mem c)"
    by (simp_all add: cache_rep_def)
  from Remove_wf [OF wf e ok] obtain h' where
    r: "Remove (evictList c) e (mem c) = Some (Val (the (ents (mem c) e)), h')"
    and wf': "wf_list h' (evictList c) (remove1 e as)" and ok': "heap_ok h'"
    and pl: "payload h' = payload (mem c)" by auto
  from wf_payload [OF wf e] obtain k v where kv: "payload (mem c) e = Some (k, v)" by auto
  with pl have "payload h' e = Some (k, v)" by simp
  from payload_ents [OF this] obtain E where E: "ents h' e = Some E" "Key E = k" "Val E = v" by auto
  let ?c1 = "c\<lparr>mem := h', items := (items c)(k := None)\<rparr>"
  let ?c' = "?c1\<lparr>env := apply_cb (onEvict c) (env c) (k, v)\<rparr>"
  have re: "removeElement e c = Some ?c'"
    using r E by (simp add: removeElement_def apply_cb_def split: option.splits)
  have d: "distinct as" using wf by (simp add: wf_list_def)
  have "(items ?c' k' = Some a) = (a \<in> set (remove1 e as) \<and> map_option fst (payload h' a) = Some k')" for k' a
  proof (cases "k' = k")
    case True
    have "\<not> (a \<in> set as \<and> a \<noteq> e \<and> map_option fst (payload (mem c) a) = Some k)"
    proof
      assume h: "a \<in> set as \<and> a \<noteq> e \<and> map_option fst (payload (mem c) a) = Some k"
      then obtain v' where "payload (mem c) a = Some (k, v')" by auto
      from rep_inj [OF rep _ e this kv] h show False by simp
    qed
    then show ?thesis using True d by (auto simp: pl)
  next
    case False
    have "(items c k' = Some a) = (a \<in> set as \<and> map_option fst (payload (mem c) a) = Some k')"
      using rep by (simp add: cache_rep_def)
    moreover have "map_option fst (payload (mem c) a) = Some k' \<Longrightarrow> a \<noteq> e" using kv False by auto
    ultimately show ?thesis using False d by (auto simp: pl)
  qed
  then have "cache_rep ?c' (remove1 e as)" using wf' ok' by (simp add: cache_rep_def)
  then show ?thesis using re pl kv by simp
qed

lemma removeOldest_rep:
  assumes rep: "cache_rep c as"
  shows "\<exists>c'. removeOldest c = Some c' \<and> cache_rep c' (butlast as) \<and>
           payload (mem c') = payload (mem c) \<and>
           env c' = (if as = [] then env c else apply_cb (onEvict c) (env c) (the (payload (mem c) (last as)))) \<and>
           sizeC c' = sizeC c \<and> onEvict c' = onEvict c \<and> evictList c' = evictList c"
proof -
  from rep have wf: "wf_list (mem c) (evictList c) as" by (simp add: cache_rep_def)
  then have d: "distinct as" by (simp add: wf_list_def)
  show ?thesis
  proof (cases "as = []")
    case True
    then show ?thesis using rep Back_wf [OF wf] by (simp add: removeOldest_def)
  next
    case False
    then have "removeOldest c = removeElement (last as) c"
      using Back_wf [OF wf] by (simp add: removeOldest_def)
    with removeElement_rep [OF rep, of "last as"] False remove1_last [OF d False]
    show ?thesis by auto
  qed
qed

section \<open>Add and Get on a well-formed cache\<close>

lemma Length_wf: "wf_list h l as \<Longrightarrow> Length l h = Some (int (length as))"
  by (simp add: Length_def wf_list_def)

lemma Add_miss_rep:
  assumes rep: "cache_rep c as" and miss: "items c k = None"
  shows "\<exists>c'. Add k v c = Some (sizeC c < int (length as) + 1, c') \<and>
           cache_rep c' (if sizeC c < int (length as) + 1 then butlast (brk (mem c) # as)
                         else brk (mem c) # as) \<and>
           payload (mem c') = (payload (mem c))(brk (mem c) \<mapsto> (k, v)) \<and>
           env c' = (if sizeC c < int (length as) + 1
                     then apply_cb (onEvict c) (env c)
                            (the (((payload (mem c))(brk (mem c) \<mapsto> (k, v))) (last (brk (mem c) # as))))
                     else env c) \<and>
           sizeC c' = sizeC c \<and> onEvict c' = onEvict c \<and> evictList c' = evictList c"
proof -
  let ?a = "brk (mem c)"
  from rep have wf: "wf_list (mem c) (evictList c) as" and ok: "heap_ok (mem c)"
    and it: "\<And>k a. (items c k = Some a) = (a \<in> set as \<and> map_option fst (payload (mem c) a) = Some k)"
    by (simp_all add: cache_rep_def)
  from PushFront_wf [OF wf ok, of k v] obtain h' where
    pf: "PushFront (evictList c) k v (mem c) = Some (?a, h')"
    and wf': "wf_list h' (evictList c) (?a # as)" and ok': "heap_ok h'"
    and pl: "payload h' = (payload (mem c))(?a \<mapsto> (k, v))" by auto
  let ?c1 = "c\<lparr>mem := h', items := (items c)(k \<mapsto> ?a)\<rparr>"
  have na: "?a \<notin> set as" using wf' by (simp add: wf_list_def)
  have "(items ?c1 k' = Some a) = (a \<in> set (?a # as) \<and> map_option fst (payload h' a) = Some k')" for k' a
  proof (cases "k' = k")
    case True
    have "\<not> (a \<in> set as \<and> map_option fst (payload (mem c) a) = Some k)"
      using it [of k a] miss by simp
    then show ?thesis using True na by (auto simp: pl)
  next
    case False
    then show ?thesis using it [of k' a] na by (auto simp: pl)
  qed
  then have rep1: "cache_rep ?c1 (?a # as)" using wf' ok' by (simp add: cache_rep_def)
  have len: "Length (evictList ?c1) (mem ?c1) = Some (int (length as) + 1)"
    using Length_wf [OF wf'] by simp
  show ?thesis
  proof (cases "sizeC c < int (length as) + 1")
    case True
    from removeOldest_rep [OF rep1] obtain c' where
      ro: "removeOldest ?c1 = Some c'" and rep': "cache_rep c' (butlast (?a # as))"
      and pl': "payload (mem c') = payload h'"
      and en: "env c' = apply_cb (onEvict c) (env c) (the (payload h' (last (?a # as))))"
      and fr: "sizeC c' = sizeC c" "onEvict c' = onEvict c" "evictList c' = evictList c"
      by auto
    have "Add k v c = Some (True, c')"
      using miss pf len ro True by (simp add: Add_def)
    then show ?thesis using True rep' pl' pl en fr by simp
  next
    case False
    have "Add k v c = Some (False, ?c1)"
      using miss pf len False by (simp add: Add_def)
    then show ?thesis using False rep1 pl by simp
  qed
qed

lemma touch_rep:
  assumes rep: "cache_rep c as" and hit: "items c k = Some e"
  shows "\<exists>h'. MoveToFront (evictList c) e (mem c) = Some h' \<and>
           cache_rep (c\<lparr>mem := h'\<rparr>) (e # remove1 e as) \<and> payload h' = payload (mem c)"
proof -
  from rep have wf: "wf_list (mem c) (evictList c) as" and ok: "heap_ok (mem c)"
    and it: "\<And>k a. (items c k = Some a) = (a \<in> set as \<and> map_option fst (payload (mem c) a) = Some k)"
    by (simp_all add: cache_rep_def)
  from rep_lookup [OF rep hit] have e: "e \<in> set as" by simp
  from MoveToFront_wf [OF wf e ok] obtain h' where
    m: "MoveToFront (evictList c) e (mem c) = Some h'"
    and wf': "wf_list h' (evictList c) (e # remove1 e as)" and ok': "heap_ok h'"
    and pl: "payload h' = payload (mem c)" by auto
  have "set (e # remove1 e as) = set as" using e wf by (auto simp: wf_list_def)
  then have "cache_rep (c\<lparr>mem := h'\<rparr>) (e # remove1 e as)"
    using wf' ok' it unfolding cache_rep_def by (simp add: pl)
  with m pl show ?thesis by simp
qed

lemma Get_hit_rep:
  assumes rep: "cache_rep c as" and hit: "items c k = Some e"
  shows "\<exists>c'. Get k c = Some ((snd (the (payload (mem c) e)), True), c') \<and>
           cache_rep c' (e # remove1 e as) \<and> payload (mem c') = payload (mem c) \<and>
           env c' = env c \<and> sizeC c' = sizeC c \<and> onEvict c' = onEvict c \<and>
           evictList c' = evictList c \<and> items c' = items c"
proof -
  from touch_rep [OF rep hit] obtain h' where
    m: "MoveToFront (evictList c) e (mem c) = Some h'"
    and rep': "cache_rep (c\<lparr>mem := h'\<rparr>) (e # remove1 e as)" and pl: "payload h' = payload (mem c)"
    by auto
  from rep_lookup [OF rep hit] obtain v where "payload (mem c) e = Some (k, v)" by auto
  moreover from this pl have "payload h' e = Some (k, v)" by simp
  from payload_ents [OF this] obtain E where "ents h' e = Some E" "Val E = v" by auto
  ultimately have "Get k c = Some ((snd (the (payload (mem c) e)), True), c\<lparr>mem := h'\<rparr>)"
    using hit m by (simp add: Get_def)
  with rep' pl show ?thesis by simp
qed

lemma Add_hit_rep:
  assumes rep: "cache_rep c as" and hit: "items c k = Some e"
  shows "\<exists>c'. Add k v c = Some (False, c') \<and>
           cache_rep c' (e # remove1 e as) \<and> payload (mem c') = (payload (mem c))(e \<mapsto> (k, v)) \<and>
           env c' = env c \<and> sizeC c' = sizeC c \<and> onEvict c' = onEvict c \<and>
           evictList c' = evictList c \<and> items c' = items c"
proof -
  from touch_rep [OF rep hit] obtain h' where
    m: "MoveToFront (evictList c) e (mem c) = Some h'"
    and rep': "cache_rep (c\<lparr>mem := h'\<rparr>) (e # remove1 e as)" and pl: "payload h' = payload (mem c)"
    by auto
  from rep' have wf': "wf_list h' (evictList c) (e # remove1 e as)" and ok': "heap_ok h'"
    and it: "\<And>k a. (items c k = Some a) = (a \<in> set (e # remove1 e as) \<and> map_option fst (payload h' a) = Some k)"
    by (simp_all add: cache_rep_def)
  from rep_lookup [OF rep hit] obtain v0 where kv: "payload (mem c) e = Some (k, v0)" by auto
  from set_Val_wf [OF wf' _ ok', of e v] obtain h2 where
    sv: "modify e (\<lambda>x. x\<lparr>Val := v\<rparr>) h' = Some h2" and wf2: "wf_list h2 (evictList c) (e # remove1 e as)"
    and ok2: "heap_ok h2" and pl2: "payload h2 = (payload h')(e \<mapsto> (fst (the (payload h' e)), v))"
    by auto
  have pl2': "payload h2 = (payload (mem c))(e \<mapsto> (k, v))" using pl2 pl kv by simp
  have "map_option fst (payload h2 a) = map_option fst (payload h' a)" for a
    using pl kv by (simp add: pl2')
  then have "cache_rep (c\<lparr>mem := h2\<rparr>) (e # remove1 e as)"
    using wf2 ok2 it unfolding cache_rep_def by simp
  moreover have "Add k v c = Some (False, c\<lparr>mem := h2\<rparr>)"
    using hit m sv by (simp add: Add_def)
  ultimately show ?thesis using pl2' by simp
qed

section \<open>The operations in terms of the pairs held\<close>

lemma pairs_cong: "(\<And>a. a \<in> set as \<Longrightarrow> payload h' a = payload h a) \<Longrightarrow> pairs h' as = pairs h as"
  by (simp add: pairs_def)

lemma rep_pairs_mem:
  assumes "cache_rep c as" "a \<in> set as"
  shows "payload (mem c) a = Some (the (payload (mem c) a))" "the (payload (mem c) a) \<in> set (pairs (mem c) as)"
proof -
  from assms have "wf_list (mem c) (evictList c) as" by (simp add: cache_rep_def)
  from wf_payload [OF this assms(2)] show "payload (mem c) a = Some (the (payload (mem c) a))" by auto
  show "the (payload (mem c) a) \<in> set (pairs (mem c) as)" using assms(2) by (simp add: pairs_def)
qed

lemma rep_key_inj:
  assumes rep: "cache_rep c as"
  shows "inj_on (\<lambda>a. fst (the (payload (mem c) a))) (set as)"
proof (rule inj_onI)
  fix a b assume a: "a \<in> set as" and b: "b \<in> set as"
    and eq: "fst (the (payload (mem c) a)) = fst (the (payload (mem c) b))"
  from rep_pairs_mem(1) [OF rep a] rep_pairs_mem(1) [OF rep b] eq
  obtain k v v' where "payload (mem c) a = Some (k, v)" "payload (mem c) b = Some (k, v')"
    by (metis prod.collapse)
  then show "a = b" using rep_inj [OF rep a b] by simp
qed

lemma rep_distinct_keys:
  assumes rep: "cache_rep c as"
  shows "distinct (map fst (pairs (mem c) as))"
proof -
  from rep have "distinct as" by (simp add: cache_rep_def wf_list_def)
  with rep_key_inj [OF rep] show ?thesis by (simp add: pairs_def distinct_map comp_def)
qed

lemma rep_dom:
  assumes rep: "cache_rep c as"
  shows "dom (items c) = fst ` set (pairs (mem c) as)"
proof (rule set_eqI)
  fix k
  show "k \<in> dom (items c) \<longleftrightarrow> k \<in> fst ` set (pairs (mem c) as)"
  proof
    assume "k \<in> dom (items c)"
    then obtain a where "items c k = Some a" by auto
    from rep_lookup [OF rep this] obtain v where "a \<in> set as" "payload (mem c) a = Some (k, v)" by auto
    then have "(k, v) \<in> set (pairs (mem c) as)" by (force simp: pairs_def)
    then show "k \<in> fst ` set (pairs (mem c) as)" by force
  next
    assume "k \<in> fst ` set (pairs (mem c) as)"
    then obtain a where a: "a \<in> set as" "k = fst (the (payload (mem c) a))" by (auto simp: pairs_def)
    with rep_pairs_mem(1) [OF rep a(1)] obtain v where "payload (mem c) a = Some (k, v)"
      by (metis prod.collapse)
    from rep_items [OF rep a(1) this] show "k \<in> dom (items c)" by auto
  qed
qed

lemma rep_map_of:
  assumes rep: "cache_rep c as" and hit: "items c k = Some e"
  shows "map_of (pairs (mem c) as) k = Some (snd (the (payload (mem c) e)))"
proof -
  from rep_lookup [OF rep hit] obtain v where e: "e \<in> set as" and kv: "payload (mem c) e = Some (k, v)" by auto
  then have "(k, v) \<in> set (pairs (mem c) as)" by (force simp: pairs_def)
  with rep_distinct_keys [OF rep] show ?thesis using kv by simp
qed

lemma pairs_remove1:
  assumes "distinct as" "inj_on (\<lambda>a. fst (the (payload h a))) (set as)" "e \<in> set as"
    "fst (the (payload h e)) = k"
  shows "pairs h (remove1 e as) = filter (\<lambda>p. fst p \<noteq> k) (pairs h as)"
  using assms
proof (induction as)
  case Nil
  then show ?case by simp
next
  case (Cons a as)
  show ?case
  proof (cases "a = e")
    case True
    have "\<And>b. b \<in> set as \<Longrightarrow> fst (the (payload h b)) \<noteq> k"
    proof
      fix b assume b: "b \<in> set as" and "fst (the (payload h b)) = k"
      with Cons.prems(2,4) True have "b = e" by (auto simp: inj_on_def)
      with b True Cons.prems(1) show False by simp
    qed
    then have "filter (\<lambda>p. fst p \<noteq> k) (pairs h as) = pairs h as"
      by (auto simp: pairs_def filter_id_conv)
    then show ?thesis using True Cons.prems(4) by (simp add: pairs_def)
  next
    case False
    with Cons.prems have e: "e \<in> set as" by simp
    have "fst (the (payload h a)) \<noteq> k"
    proof
      assume "fst (the (payload h a)) = k"
      with Cons.prems(2,3,4) have "a = e" by (auto simp: inj_on_def)
      with False show False by simp
    qed
    moreover have "pairs h (remove1 e as) = filter (\<lambda>p. fst p \<noteq> k) (pairs h as)"
      using Cons.IH Cons.prems e by (simp add: inj_on_def)
    ultimately show ?thesis using False by (simp add: pairs_def)
  qed
qed

lemma pairs_last: "as \<noteq> [] \<Longrightarrow> last (pairs h as) = the (payload h (last as))"
  by (simp add: pairs_def last_map)

lemma holds_NewLru:
  assumes "0 < n" "heap_ok h"
  shows "\<exists>c. NewLru n cb h w = Some (Inr c) \<and> holds c [] \<and> sizeC c = n \<and> onEvict c = cb \<and> env c = w"
proof -
  from NewList_wf [OF assms(2)] obtain h' where
    "NewList h = Some (brk h, h')" "wf_list h' (brk h) []" "heap_ok h'" by auto
  then show ?thesis using assms(1)
    by (auto simp: NewLru_def holds_def cache_rep_def pairs_def)
qed

lemma holds_distinct:
  assumes "holds c xs"
  shows "distinct (map fst xs)"
proof -
  from assms obtain as where "cache_rep c as" "pairs (mem c) as = xs" by (auto simp: holds_def)
  with rep_distinct_keys [of c as] show ?thesis by simp
qed

lemma holds_dom:
  assumes "holds c xs"
  shows "dom (items c) = fst ` set xs"
proof -
  from assms obtain as where "cache_rep c as" "pairs (mem c) as = xs" by (auto simp: holds_def)
  with rep_dom [of c as] show ?thesis by simp
qed

lemma holds_Len:
  assumes "holds c xs"
  shows "Len c = Some (int (length xs))"
proof -
  from assms obtain as where "wf_list (mem c) (evictList c) as" "pairs (mem c) as = xs"
    by (auto simp: holds_def cache_rep_def)
  with Length_wf [of "mem c" "evictList c" as] show ?thesis by (auto simp: Len_def pairs_def)
qed

lemma holds_Contains: "holds c xs \<Longrightarrow> Contains k c = (k \<in> fst ` set xs)"
  using holds_dom [of c xs] by (auto simp: Contains_def)

lemma holds_Add_miss:
  assumes h: "holds c xs" and miss: "k \<notin> fst ` set xs"
  shows "\<exists>c'. Add k v c = Some (sizeC c < int (length xs) + 1, c') \<and>
           holds c' (if sizeC c < int (length xs) + 1 then butlast ((k, v) # xs) else (k, v) # xs) \<and>
           env c' = (if sizeC c < int (length xs) + 1
                     then apply_cb (onEvict c) (env c) (last ((k, v) # xs)) else env c) \<and>
           sizeC c' = sizeC c \<and> onEvict c' = onEvict c"
proof -
  from h obtain as where rep: "cache_rep c as" and xs: "pairs (mem c) as = xs" by (auto simp: holds_def)
  let ?a = "brk (mem c)"
  from miss holds_dom [OF h] have m: "items c k = None" by auto
  from rep have "wf_list (mem c) (evictList c) as" "heap_ok (mem c)" by (simp_all add: cache_rep_def)
  then have na: "?a \<notin> set as" using wf_alloc [of "mem c" "evictList c" as ?a]
    by (auto simp: heap_ok_def)
  have len: "length xs = length as" using xs by (auto simp: pairs_def)
  from Add_miss_rep [OF rep m, of v] obtain c' where
    a: "Add k v c = Some (sizeC c < int (length as) + 1, c')"
    and rep': "cache_rep c' (if sizeC c < int (length as) + 1 then butlast (?a # as) else ?a # as)"
    and pl: "payload (mem c') = (payload (mem c))(?a \<mapsto> (k, v))"
    and en: "env c' = (if sizeC c < int (length as) + 1
                     then apply_cb (onEvict c) (env c)
                            (the (((payload (mem c))(?a \<mapsto> (k, v))) (last (?a # as))))
                     else env c)"
    and fr: "sizeC c' = sizeC c" "onEvict c' = onEvict c" by auto
  have p: "pairs (mem c') (?a # as) = (k, v) # xs"
    using na xs by (auto simp: pairs_def pl)
  have pb: "pairs (mem c') (butlast (?a # as)) = butlast ((k, v) # xs)"
    using p by (simp add: pairs_def map_butlast del: butlast.simps)
  have "the (payload (mem c') (last (?a # as))) = last (pairs (mem c') (?a # as))"
    by (rule pairs_last [symmetric]) simp
  then have pla: "the (((payload (mem c))(?a \<mapsto> (k, v))) (last (?a # as))) = last ((k, v) # xs)"
    unfolding p pl .
  have "holds c' (if sizeC c < int (length xs) + 1 then butlast ((k, v) # xs) else (k, v) # xs)"
    using rep' p pb unfolding holds_def len by (auto split: if_splits)
  then show ?thesis using a en fr pla by (simp add: len)
qed

lemma holds_touch:
  assumes rep: "cache_rep c as" and hit: "items c k = Some e"
  shows "pairs (mem c) (remove1 e as) = filter (\<lambda>p. fst p \<noteq> k) (pairs (mem c) as)"
    and "e \<notin> set (remove1 e as)"
proof -
  from rep have d: "distinct as" by (simp add: cache_rep_def wf_list_def)
  from rep_lookup [OF rep hit] obtain v where e: "e \<in> set as" and kv: "payload (mem c) e = Some (k, v)" by auto
  show "pairs (mem c) (remove1 e as) = filter (\<lambda>p. fst p \<noteq> k) (pairs (mem c) as)"
    using pairs_remove1 [OF d rep_key_inj [OF rep] e] kv by simp
  show "e \<notin> set (remove1 e as)" using d by simp
qed

lemma holds_Add_hit:
  assumes h: "holds c xs" and hit: "k \<in> fst ` set xs"
  shows "\<exists>c'. Add k v c = Some (False, c') \<and>
           holds c' ((k, v) # filter (\<lambda>p. fst p \<noteq> k) xs) \<and>
           env c' = env c \<and> sizeC c' = sizeC c \<and> onEvict c' = onEvict c \<and>
           nx (mem c') (evictList c') = items c' k \<and> items c' = items c"
proof -
  from h obtain as where rep: "cache_rep c as" and xs: "pairs (mem c) as = xs" by (auto simp: holds_def)
  from hit holds_dom [OF h] obtain e where e: "items c k = Some e" by auto
  from Add_hit_rep [OF rep e, of v] obtain c' where
    a: "Add k v c = Some (False, c')" and rep': "cache_rep c' (e # remove1 e as)"
    and pl: "payload (mem c') = (payload (mem c))(e \<mapsto> (k, v))"
    and fr: "env c' = env c" "sizeC c' = sizeC c" "onEvict c' = onEvict c" "evictList c' = evictList c"
      "items c' = items c" by auto
  note t = holds_touch [OF rep e]
  have "pairs (mem c') (remove1 e as) = pairs (mem c) (remove1 e as)"
    using t(2) by (intro pairs_cong) (auto simp: pl)
  moreover have "the (payload (mem c') e) = (k, v)" by (simp add: pl)
  moreover have "pairs (mem c') (e # remove1 e as) = the (payload (mem c') e) # pairs (mem c') (remove1 e as)"
    by (simp add: pairs_def)
  ultimately have "pairs (mem c') (e # remove1 e as) = (k, v) # filter (\<lambda>p. fst p \<noteq> k) xs"
    using t(1) xs by simp
  with rep' have "holds c' ((k, v) # filter (\<lambda>p. fst p \<noteq> k) xs)" by (auto simp: holds_def)
  moreover from rep' have "nx (mem c') (evictList c') = Some e"
    by (simp add: cache_rep_def wf_list_def lnk_def)
  ultimately show ?thesis using a fr e by simp
qed

lemma holds_Get_hit:
  assumes h: "holds c xs" and hit: "map_of xs k = Some v"
  shows "\<exists>c'. Get k c = Some ((v, True), c') \<and>
           holds c' ((k, v) # filter (\<lambda>p. fst p \<noteq> k) xs) \<and>
           env c' = env c \<and> sizeC c' = sizeC c \<and> onEvict c' = onEvict c"
proof -
  from h obtain as where rep: "cache_rep c as" and xs: "pairs (mem c) as = xs" by (auto simp: holds_def)
  from hit have "k \<in> fst ` set xs" by (auto dest: map_of_SomeD intro: rev_image_eqI)
  with holds_dom [OF h] obtain e where e: "items c k = Some e" by auto
  from rep_map_of [OF rep e] hit xs have v: "snd (the (payload (mem c) e)) = v" by simp
  from rep_lookup [OF rep e] v have kv: "the (payload (mem c) e) = (k, v)" by auto
  from Get_hit_rep [OF rep e] v obtain c' where
    a: "Get k c = Some ((v, True), c')" and rep': "cache_rep c' (e # remove1 e as)"
    and pl: "payload (mem c') = payload (mem c)"
    and fr: "env c' = env c" "sizeC c' = sizeC c" "onEvict c' = onEvict c" by auto
  note t = holds_touch [OF rep e]
  have "pairs (mem c') (e # remove1 e as) = (k, v) # filter (\<lambda>p. fst p \<noteq> k) xs"
    using t(1) xs kv by (simp add: pairs_def pl)
  with rep' have "holds c' ((k, v) # filter (\<lambda>p. fst p \<noteq> k) xs)" by (auto simp: holds_def)
  then show ?thesis using a fr by simp
qed

lemma holds_Remove_hit:
  assumes h: "holds c xs" and hit: "map_of xs k = Some v"
  shows "\<exists>c'. Remove_key k c = Some (True, c') \<and>
           holds c' (filter (\<lambda>p. fst p \<noteq> k) xs) \<and>
           env c' = apply_cb (onEvict c) (env c) (k, v) \<and> sizeC c' = sizeC c \<and> onEvict c' = onEvict c"
proof -
  from h obtain as where rep: "cache_rep c as" and xs: "pairs (mem c) as = xs" by (auto simp: holds_def)
  from hit have "k \<in> fst ` set xs" by (auto dest: map_of_SomeD intro: rev_image_eqI)
  with holds_dom [OF h] obtain e where e: "items c k = Some e" by auto
  from rep_map_of [OF rep e] hit xs have v: "snd (the (payload (mem c) e)) = v" by simp
  from rep_lookup [OF rep e] v have kv: "the (payload (mem c) e) = (k, v)" and ein: "e \<in> set as" by auto
  from removeElement_rep [OF rep ein] kv obtain c' where
    a: "removeElement e c = Some c'" and rep': "cache_rep c' (remove1 e as)"
    and pl: "payload (mem c') = payload (mem c)"
    and fr: "env c' = apply_cb (onEvict c) (env c) (k, v)" "sizeC c' = sizeC c" "onEvict c' = onEvict c"
    by auto
  note t = holds_touch [OF rep e]
  have "pairs (mem c') (remove1 e as) = filter (\<lambda>p. fst p \<noteq> k) xs"
    using t(1) xs by (simp add: pairs_def pl)
  with rep' have "holds c' (filter (\<lambda>p. fst p \<noteq> k) xs)" by (auto simp: holds_def)
  moreover have "Remove_key k c = Some (True, c')" using e a by (simp add: Remove_key_def)
  ultimately show ?thesis using fr by simp
qed

lemma holds_Remove_miss:
  assumes h: "holds c xs" and miss: "k \<notin> fst ` set xs"
  shows "Remove_key k c = Some (False, c)"
proof -
  from miss holds_dom [OF h] have "items c k = None" by auto
  then show ?thesis by (simp add: Remove_key_def)
qed

lemma holds_Get_miss:
  assumes h: "holds c xs" and miss: "k \<notin> fst ` set xs"
  shows "Get k c = Some ((default, False), c)"
proof -
  from miss holds_dom [OF h] have "items c k = None" by auto
  then show ?thesis by (simp add: Get_def)
qed

section \<open>Keys\<close>

lemma PrevEntry_nth:
  assumes "wf_list h l as" and "i < length as"
  shows "PrevEntry (as ! i) h = Some (if i = 0 then None else Some (as ! (i - 1)))"
proof -
  have as: "as = take i as @ as ! i # drop (Suc i) as" using assms(2) by (rule id_take_nth_drop)
  have "i \<noteq> 0 \<Longrightarrow> last (take i as) = as ! (i - 1)"
    using assms(2) by (cases i) (simp_all add: take_Suc_conv_app_nth)
  with PrevEntry_wf [OF assms(1) as] assms(2) show ?thesis by auto
qed

lemma Keys_loop_wf:
  assumes wf: "wf_list h l as"
  shows "j < length as \<Longrightarrow> i + j < length keys \<Longrightarrow>
    Keys_loop h keys i (Some (as ! j)) =
      Some (take i keys @ rev (map fst (pairs h (take (Suc j) as))) @ drop (Suc (i + j)) keys)"
proof (induction j arbitrary: i keys)
  case 0
  from wf_payload [OF wf, of "as ! 0"] 0 obtain k v where "payload h (as ! 0) = Some (k, v)" by auto
  moreover from payload_ents [OF this] obtain E where "ents h (as ! 0) = Some E" "Key E = k" by auto
  moreover have "PrevEntry (as ! 0) h = Some None" using PrevEntry_nth [OF wf, of 0] 0 by simp
  moreover have "Keys_loop h (keys[i := k]) (Suc i) None = Some (keys[i := k])"
    by (subst Keys_loop.simps) simp
  moreover have "take (Suc 0) as = [as ! 0]" using 0 by (cases as) auto
  ultimately show ?case using 0
    by (subst Keys_loop.simps) (simp add: pairs_def upd_conv_take_nth_drop)
next
  case (Suc j)
  let ?e = "as ! Suc j"
  from wf_payload [OF wf, of ?e] Suc.prems obtain k v where kv: "payload h ?e = Some (k, v)" by auto
  from payload_ents [OF this] obtain E where E: "ents h ?e = Some E" "Key E = k" by auto
  have pe: "PrevEntry ?e h = Some (Some (as ! j))" using PrevEntry_nth [OF wf, of "Suc j"] Suc.prems by simp
  have il: "i < length keys" using Suc.prems by simp
  have "Keys_loop h keys i (Some ?e) = Keys_loop h (keys[i := k]) (Suc i) (Some (as ! j))"
    using E pe il by (subst Keys_loop.simps) simp
  also have "\<dots> = Some (take (Suc i) (keys[i := k]) @ rev (map fst (pairs h (take (Suc j) as))) @
                       drop (Suc (Suc i + j)) (keys[i := k]))"
    using Suc.prems by (intro Suc.IH) simp_all
  also have "take (Suc i) (keys[i := k]) = take i keys @ [k]"
    using il by (simp add: take_Suc_conv_app_nth)
  also have "drop (Suc (Suc i + j)) (keys[i := k]) = drop (Suc (i + Suc j)) keys" by simp
  also have "(take i keys @ [k]) @ rev (map fst (pairs h (take (Suc j) as))) @ drop (Suc (i + Suc j)) keys
     = take i keys @ rev (map fst (pairs h (take (Suc (Suc j)) as))) @ drop (Suc (i + Suc j)) keys"
    using Suc.prems(1) kv by (simp add: take_Suc_conv_app_nth [of "Suc j"] pairs_def)
  finally show ?case .
qed

lemma holds_Keys:
  assumes "holds c xs"
  shows "Keys c = Some (rev (map fst xs))"
proof -
  from assms obtain as where wf: "wf_list (mem c) (evictList c) as" and xs: "pairs (mem c) as = xs"
    by (auto simp: holds_def cache_rep_def)
  have len: "Length (evictList c) (mem c) = Some (int (length as))" by (rule Length_wf [OF wf])
  show ?thesis
  proof (cases "as = []")
    case True
    moreover have "Keys_loop (mem c) [] 0 None = Some []" by (subst Keys_loop.simps) simp
    ultimately show ?thesis using len Back_wf [OF wf] xs by (simp add: Keys_def pairs_def)
  next
    case False
    then have l: "last as = as ! (length as - 1)" by (rule last_conv_nth)
    have "Keys_loop (mem c) (replicate (length as) default) 0 (Some (as ! (length as - 1)))
      = Some (take 0 (replicate (length as) default) @
              rev (map fst (pairs (mem c) (take (Suc (length as - 1)) as))) @
              drop (Suc (0 + (length as - 1))) (replicate (length as) default))"
      using False by (intro Keys_loop_wf [OF wf]) simp_all
    then have "Keys_loop (mem c) (replicate (length as) default) 0 (Some (last as)) = Some (rev (map fst xs))"
      using False xs l by simp
    then show ?thesis using len Back_wf [OF wf] False by (simp add: Keys_def)
  qed
qed

section \<open>Runs of Add\<close>

lemma Adds_append: "Adds (xs @ ys) c = (case Adds xs c of None \<Rightarrow> None | Some c1 \<Rightarrow> Adds ys c1)"
  by (induction xs arbitrary: c) (auto split: option.splits)

lemma filter_key_length:
  "distinct (map fst xs) \<Longrightarrow> k \<in> fst ` set xs \<Longrightarrow> Suc (length (filter (\<lambda>p. fst p \<noteq> k) xs)) = length xs"
proof (induction xs)
  case Nil
  then show ?case by simp
next
  case (Cons x xs)
  show ?case
  proof (cases "fst x = k")
    case True
    from Cons.prems(1) have "fst x \<notin> fst ` set xs" by simp
    with True have "\<forall>p \<in> set xs. fst p \<noteq> k" by blast
    then have "filter (\<lambda>p. fst p \<noteq> k) xs = xs" by (simp add: filter_id_conv)
    with True show ?thesis by simp
  next
    case False
    with Cons show ?thesis by auto
  qed
qed

lemma holds_Add_bound:
  assumes h: "holds c xs" and b: "int (length xs) \<le> sizeC c"
  shows "\<exists>r c' xs'. Add k v c = Some (r, c') \<and> holds c' xs' \<and> int (length xs') \<le> sizeC c' \<and>
           sizeC c' = sizeC c"
proof (cases "k \<in> fst ` set xs")
  case True
  from holds_Add_hit [OF h True, of v] obtain c' where
    "Add k v c = Some (False, c')" "holds c' ((k, v) # filter (\<lambda>p. fst p \<noteq> k) xs)" "sizeC c' = sizeC c"
    by auto
  moreover have "length ((k, v) # filter (\<lambda>p. fst p \<noteq> k) xs) = length xs"
    using filter_key_length [OF holds_distinct [OF h] True] by simp
  ultimately show ?thesis using b by metis
next
  case False
  from holds_Add_miss [OF h False, of v] obtain c' where
    a: "Add k v c = Some (sizeC c < int (length xs) + 1, c')"
    and h': "holds c' (if sizeC c < int (length xs) + 1 then butlast ((k, v) # xs) else (k, v) # xs)"
    and s: "sizeC c' = sizeC c" by auto
  have "int (length (if sizeC c < int (length xs) + 1 then butlast ((k, v) # xs) else (k, v) # xs)) \<le> sizeC c'"
    using b s by auto
  with a h' s show ?thesis by metis
qed

lemma Adds_bound:
  "holds c xs \<Longrightarrow> int (length xs) \<le> sizeC c \<Longrightarrow>
   \<exists>c' xs'. Adds kvs c = Some c' \<and> holds c' xs' \<and> int (length xs') \<le> sizeC c' \<and> sizeC c' = sizeC c"
proof (induction kvs arbitrary: c xs)
  case Nil
  then show ?case by auto
next
  case (Cons kv kvs)
  obtain k v where kv: "kv = (k, v)" by (cases kv)
  from holds_Add_bound [OF Cons.prems, of k v] obtain r c1 xs1 where
    a: "Add k v c = Some (r, c1)" and h1: "holds c1 xs1" and b1: "int (length xs1) \<le> sizeC c1"
    and s1: "sizeC c1 = sizeC c" by auto
  from Cons.IH [OF h1 b1] obtain c' xs' where
    "Adds kvs c1 = Some c'" "holds c' xs'" "int (length xs') \<le> sizeC c'" "sizeC c' = sizeC c1" by auto
  with a s1 kv show ?case by auto
qed

text \<open>
  Claim C4. A cache made by \<open>NewLru\<close> with a positive capacity \<open>n\<close> (in any store \<open>h0\<close> whose
  allocator is sound) runs every finite sequence of \<open>Add\<close> calls without a panic, and after
  the sequence \<open>Len\<close> is at most \<open>Cap\<close>, which is still \<open>n\<close>, and \<open>Len\<close> is the number of keys in
  the index. The sequence is arbitrary, so this holds after each call of a sequence.
\<close>

theorem capacity_never_exceeded:
  assumes "0 < n" and "heap_ok h0"
  shows "\<exists>c0. NewLru n cb h0 w0 = Some (Inr c0) \<and>
           (\<forall>kvs. \<exists>c m. Adds kvs c0 = Some c \<and> Len c = Some m \<and> m \<le> Cap c \<and> Cap c = n \<and>
                     int (card (dom (items c))) = m)"
proof -
  from holds_NewLru [OF assms, of cb w0] obtain c0 where
    n: "NewLru n cb h0 w0 = Some (Inr c0)" and h: "holds c0 []" and s: "sizeC c0 = n" by auto
  have "\<exists>c m. Adds kvs c0 = Some c \<and> Len c = Some m \<and> m \<le> Cap c \<and> Cap c = n \<and>
          int (card (dom (items c))) = m" for kvs
  proof -
    from Adds_bound [OF h, of kvs] assms(1) s obtain c xs where
      a: "Adds kvs c0 = Some c" and hc: "holds c xs" and b: "int (length xs) \<le> sizeC c" and sc: "sizeC c = n"
      by auto
    have "card (dom (items c)) = length xs"
      using holds_dom [OF hc] holds_distinct [OF hc] by (simp add: distinct_card flip: set_map)
    with a holds_Len [OF hc] b sc show ?thesis by (simp add: Cap_def)
  qed
  with n show ?thesis by blast
qed

lemma heap_ok_empty: "heap_ok empty_heap"
  by (simp add: heap_ok_def empty_heap_def)

theorem capacity_never_exceeded_witness:
  "(0::int) < 2 \<and> heap_ok (empty_heap :: (nat, nat) heap) \<and>
   (\<exists>c m. Adds [(1, 10), (2, 20), (3, 30)] ex_cache0 = Some c \<and> Len c = Some m \<and> m \<le> Cap c \<and>
      Cap c = 2 \<and> int (card (dom (items c))) = m)"
proof -
  have a: "(0::int) < 2" by simp
  from capacity_never_exceeded [OF a heap_ok_empty, of "Some rec_cb" "[]"] obtain c0 where
    n: "NewLru 2 (Some rec_cb) (empty_heap :: (nat, nat) heap) [] = Some (Inr c0)"
    and r: "\<forall>kvs. \<exists>c m. Adds kvs c0 = Some c \<and> Len c = Some m \<and> m \<le> Cap c \<and> Cap c = 2 \<and>
                     int (card (dom (items c))) = m" by blast
  from n have "ex_cache0 = c0" by (simp add: ex_cache0_def)
  with r a heap_ok_empty show ?thesis by blast
qed

lemma Adds_snoc: "Adds (xs @ [(k, v)]) c =
    (case Adds xs c of None \<Rightarrow> None | Some c1 \<Rightarrow> (case Add k v c1 of None \<Rightarrow> None | Some (_, c2) \<Rightarrow> Some c2))"
  by (simp add: Adds_append split: option.splits)

lemma Adds_from_empty:
  assumes h0: "holds c0 []" and n: "0 < sizeC c0"
  shows "distinct (map fst kvs) \<Longrightarrow>
    \<exists>c. Adds kvs c0 = Some c \<and> holds c (rev (drop (length kvs - nat (sizeC c0)) kvs)) \<and>
        env c = foldl (apply_cb (onEvict c0)) (env c0) (take (length kvs - nat (sizeC c0)) kvs) \<and>
        sizeC c = sizeC c0 \<and> onEvict c = onEvict c0"
proof (induction kvs rule: rev_induct)
  case Nil
  then show ?case using h0 by simp
next
  case (snoc kv p)
  obtain k v where kv: "kv = (k, v)" by (cases kv)
  define N where "N = nat (sizeC c0)"
  have N: "sizeC c0 = int N" "0 < N" using n by (simp_all add: N_def)
  define d where "d = length p - N"
  from snoc.prems have dp: "distinct (map fst p)" and kp: "k \<notin> fst ` set p" by (simp_all add: kv)
  from snoc.IH [OF dp] obtain c1 where
    a1: "Adds p c0 = Some c1" and h1: "holds c1 (rev (drop d p))"
    and e1: "env c1 = foldl (apply_cb (onEvict c0)) (env c0) (take d p)"
    and s1: "sizeC c1 = sizeC c0" and o1: "onEvict c1 = onEvict c0"
    by (auto simp: d_def N_def)
  let ?xs = "rev (drop d p)"
  have lx: "length ?xs = min (length p) N" by (simp add: d_def)
  have miss: "k \<notin> fst ` set ?xs" using kp by (auto dest: in_set_dropD)
  from holds_Add_miss [OF h1 miss, of v] obtain c2 where
    a2: "Add k v c1 = Some (sizeC c1 < int (length ?xs) + 1, c2)"
    and h2: "holds c2 (if sizeC c1 < int (length ?xs) + 1 then butlast ((k, v) # ?xs) else (k, v) # ?xs)"
    and e2: "env c2 = (if sizeC c1 < int (length ?xs) + 1
                     then apply_cb (onEvict c1) (env c1) (last ((k, v) # ?xs)) else env c1)"
    and s2: "sizeC c2 = sizeC c1" and o2: "onEvict c2 = onEvict c1" by auto
  have run: "Adds (p @ [kv]) c0 = Some c2" using a1 a2 by (simp add: kv Adds_snoc)
  show ?case
  proof (cases "N \<le> length p")
    case True
    then have full: "sizeC c1 < int (length ?xs) + 1" using lx s1 N by simp
    have dl: "d < length p" using True N by (simp add: d_def)
    have d': "length (p @ [kv]) - nat (sizeC c0) = Suc d" using True by (simp add: d_def N_def)
    have ne: "drop d p \<noteq> []" using dl by simp
    have "butlast ((k, v) # ?xs) = (k, v) # rev (drop (Suc d) p)"
      using ne by (simp add: butlast_rev drop_Suc tl_drop)
    also have "\<dots> = rev (drop (Suc d) (p @ [kv]))" using dl by (simp add: kv)
    finally have hh: "holds c2 (rev (drop (Suc d) (p @ [kv])))" using h2 full by simp
    have "last ((k, v) # ?xs) = p ! d" using ne dl by (simp add: last_rev hd_drop_conv_nth)
    moreover have "take (Suc d) (p @ [kv]) = take d p @ [p ! d]" using dl by (simp add: take_Suc_conv_app_nth)
    ultimately have "env c2 = foldl (apply_cb (onEvict c0)) (env c0) (take (Suc d) (p @ [kv]))"
      using e2 full e1 o1 by simp
    with run hh s1 s2 o1 o2 show ?thesis unfolding d' by simp
  next
    case False
    then have nf: "\<not> sizeC c1 < int (length ?xs) + 1" using lx s1 N by simp
    have d0: "d = 0" "length (p @ [kv]) - nat (sizeC c0) = 0" using False by (simp_all add: d_def N_def)
    have "holds c2 (rev (p @ [kv]))" using h2 nf d0 by (simp add: kv)
    moreover have "env c2 = env c0" using e2 nf e1 d0 by simp
    ultimately show ?thesis using run s1 s2 o1 o2 unfolding d0 by simp
  qed
qed

lemma foldl_rec_cb: "foldl (apply_cb (Some rec_cb)) w xs = w @ xs"
  by (induction xs arbitrary: w) (simp_all add: apply_cb_def rec_cb_def)

lemma run_from_NewLru:
  assumes "0 < n" "heap_ok h0" "distinct (map fst kvs)"
  shows "\<exists>c0 c. NewLru n cb h0 w0 = Some (Inr c0) \<and> Adds kvs c0 = Some c \<and>
           holds c (rev (drop (length kvs - nat n) kvs)) \<and>
           env c = foldl (apply_cb cb) w0 (take (length kvs - nat n) kvs) \<and> sizeC c = n"
proof -
  from holds_NewLru [OF assms(1,2), of cb w0] obtain c0 where
    n: "NewLru n cb h0 w0 = Some (Inr c0)" and h: "holds c0 []" and s: "sizeC c0 = n"
    and o: "onEvict c0 = cb" and e: "env c0 = w0" by auto
  from assms(1) s have "0 < sizeC c0" by simp
  from Adds_from_empty [OF h this assms(3)] n s o e show ?thesis by auto
qed

section \<open>Eviction of the oldest entries\<close>

text \<open>
  Claim C5. For a capacity \<open>n \<ge> 1\<close> and \<open>M > 0\<close>, the \<open>Add\<close> calls for \<open>n + M\<close> pairs with
  distinct keys, made on the cache that \<open>NewLru\<close> returns, all return; afterwards \<open>Keys\<close> is the
  keys of the last \<open>n\<close> pairs in insertion order and the index holds exactly those keys, so
  the \<open>M\<close> first keys and no others were evicted; and the state of the callback is the one
  reached by invoking it on the \<open>M\<close> first pairs, one call per pair with its key and value,
  in insertion order (with no callback configured, that state is unchanged).
\<close>

theorem eviction_of_oldest:
  assumes "1 \<le> n" and "0 < M" and "distinct (map fst kvs)" and "length kvs = nat n + M"
    and "heap_ok h0"
  shows "\<exists>c0 c. NewLru n cb h0 w0 = Some (Inr c0) \<and> Adds kvs c0 = Some c \<and>
           Keys c = Some (map fst (drop M kvs)) \<and> dom (items c) = fst ` set (drop M kvs) \<and>
           Len c = Some n \<and> env c = foldl (apply_cb cb) w0 (take M kvs)"
proof -
  from assms(1) have n: "0 < n" by simp
  have d: "length kvs - nat n = M" using assms(4) by simp
  from run_from_NewLru [OF n assms(5,3), of cb w0] obtain c0 c where
    a: "NewLru n cb h0 w0 = Some (Inr c0)" "Adds kvs c0 = Some c"
    and h: "holds c (rev (drop M kvs))" and e: "env c = foldl (apply_cb cb) w0 (take M kvs)"
    unfolding d by auto
  have "Keys c = Some (map fst (drop M kvs))" using holds_Keys [OF h] by (simp add: rev_map)
  moreover have "dom (items c) = fst ` set (drop M kvs)" using holds_dom [OF h] by simp
  moreover have "Len c = Some n" using holds_Len [OF h] assms(1,4) by simp
  ultimately show ?thesis using a e by blast
qed

theorem eviction_of_oldest_witness:
  "(1::int) \<le> 2 \<and> (0::nat) < 1 \<and> distinct (map fst [(1::nat, 10::nat), (2, 20), (3, 30)]) \<and>
   length [(1::nat, 10::nat), (2, 20), (3, 30)] = nat 2 + 1 \<and> heap_ok (empty_heap :: (nat, nat) heap) \<and>
   (\<exists>c. Adds [(1, 10), (2, 20), (3, 30)] ex_cache0 = Some c \<and> Keys c = Some [2, 3] \<and>
      dom (items c) = {2, 3} \<and> Len c = Some 2 \<and> env c = [(1, 10)])"
proof -
  have a: "(1::int) \<le> 2" "(0::nat) < 1" "distinct (map fst [(1::nat, 10::nat), (2, 20), (3, 30)])"
    "length [(1::nat, 10::nat), (2, 20), (3, 30)] = nat 2 + 1" by simp_all
  from eviction_of_oldest [OF a heap_ok_empty, of "Some rec_cb" "[]"] obtain c0 c where
    n: "NewLru 2 (Some rec_cb) (empty_heap :: (nat, nat) heap) [] = Some (Inr c0)"
    and r: "Adds [(1, 10), (2, 20), (3, 30)] c0 = Some c" "Keys c = Some [2, 3]"
      "dom (items c) = {2, 3}" "Len c = Some 2" "env c = [(1, 10)]"
    by (auto simp: foldl_rec_cb simp del: foldl_Cons)
  from n have "ex_cache0 = c0" by (simp add: ex_cache0_def)
  with r a heap_ok_empty show ?thesis by blast
qed

section \<open>Recency order\<close>

text \<open>
  Claim C6. After the \<open>Add\<close> calls for pairs with distinct keys, no more than the capacity,
  made on the cache that \<open>NewLru\<close> returns, \<open>Keys\<close> is the keys in insertion order. A \<open>Get\<close> of
  the first key then finds its value, and afterwards \<open>Keys\<close> is the other keys in their
  order followed by the first key.
\<close>

theorem keys_recency_order:
  assumes "0 < n" and "kvs \<noteq> []" and "distinct (map fst kvs)" and "int (length kvs) \<le> n"
    and "heap_ok h0"
  shows "\<exists>c0 c c'. NewLru n cb h0 w0 = Some (Inr c0) \<and> Adds kvs c0 = Some c \<and>
           Keys c = Some (map fst kvs) \<and>
           Get (fst (hd kvs)) c = Some ((snd (hd kvs), True), c') \<and>
           Keys c' = Some (map fst (tl kvs) @ [fst (hd kvs)])"
proof -
  have d: "length kvs - nat n = 0" using assms(4) by simp
  from run_from_NewLru [OF assms(1,5,3), of cb w0] obtain c0 c where
    a: "NewLru n cb h0 w0 = Some (Inr c0)" "Adds kvs c0 = Some c"
    and h: "holds c (rev kvs)"
    unfolding d by auto
  obtain k v rest where kvs: "kvs = (k, v) # rest" using assms(2) by (cases kvs) auto
  have k: "Keys c = Some (map fst kvs)" using holds_Keys [OF h] by (simp add: rev_map)
  have "distinct (map fst (rev kvs))" using assms(3) by (simp add: rev_map [symmetric])
  moreover have "(k, v) \<in> set (rev kvs)" by (simp add: kvs)
  ultimately have "map_of (rev kvs) k = Some v" by (rule map_of_is_SomeI)
  from holds_Get_hit [OF h this] obtain c' where
    g: "Get k c = Some ((v, True), c')" and h': "holds c' ((k, v) # filter (\<lambda>p. fst p \<noteq> k) (rev kvs))"
    by auto
  have "filter (\<lambda>p. fst p \<noteq> k) rest = rest" using assms(3) kvs by (auto simp: filter_id_conv)
  then have "rev (map fst ((k, v) # filter (\<lambda>p. fst p \<noteq> k) (rev kvs))) = map fst rest @ [k]"
    by (simp add: kvs rev_map rev_filter [symmetric])
  with holds_Keys [OF h'] have "Keys c' = Some (map fst (tl kvs) @ [fst (hd kvs)])" by (simp add: kvs)
  with a k g show ?thesis by (auto simp: kvs)
qed

theorem keys_recency_order_witness:
  "(0::int) < 2 \<and> [(1::nat, 10::nat), (2, 20)] \<noteq> [] \<and> distinct (map fst [(1::nat, 10::nat), (2, 20)]) \<and>
   int (length [(1::nat, 10::nat), (2, 20)]) \<le> 2 \<and> heap_ok (empty_heap :: (nat, nat) heap) \<and>
   (\<exists>c c'. Adds [(1, 10), (2, 20)] ex_cache0 = Some c \<and> Keys c = Some [1, 2] \<and>
      Get 1 c = Some ((10, True), c') \<and> Keys c' = Some [2, 1])"
proof -
  have a: "(0::int) < 2" "[(1::nat, 10::nat), (2, 20)] \<noteq> []" "distinct (map fst [(1::nat, 10::nat), (2, 20)])"
    "int (length [(1::nat, 10::nat), (2, 20)]) \<le> 2" by simp_all
  from keys_recency_order [OF a heap_ok_empty, of "Some rec_cb" "[]"] obtain c0 c c' where
    n: "NewLru 2 (Some rec_cb) (empty_heap :: (nat, nat) heap) [] = Some (Inr c0)"
    and r: "Adds [(1, 10), (2, 20)] c0 = Some c" "Keys c = Some [1, 2]"
      "Get 1 c = Some ((10, True), c')" "Keys c' = Some [2, 1]"
    by auto
  from n have "ex_cache0 = c0" by (simp add: ex_cache0_def)
  with r a heap_ok_empty show ?thesis by blast
qed

lemma ex_cache2_holds: "holds ex_cache2 [(2, 20), (1, 10)]"
proof -
  have "(0::int) < 2" "distinct (map fst [(1::nat, 10::nat), (2, 20)])" by simp_all
  from run_from_NewLru [OF this(1) heap_ok_empty this(2), of "Some rec_cb" "[]"]
  show ?thesis by (auto simp: ex_cache2_def ex_cache0_def)
qed

section \<open>Removing a key twice\<close>

text \<open>
  Claim C7. On a well-formed cache that contains the key \<open>k\<close>, \<open>Remove(k)\<close> returns true, and
  a second \<open>Remove(k)\<close> returns false and the state it was called in: the index, the store and
  the state of the callback are the same, so the callback was not invoked.
\<close>

theorem remove_twice:
  assumes "holds c xs" and "Contains k c"
  shows "\<exists>c1. Remove_key k c = Some (True, c1) \<and> Remove_key k c1 = Some (False, c1) \<and>
           \<not> Contains k c1"
proof -
  from assms have k: "k \<in> fst ` set xs" by (simp add: holds_Contains)
  then obtain v where "(k, v) \<in> set xs" by auto
  with holds_distinct [OF assms(1)] have "map_of xs k = Some v" by simp
  from holds_Remove_hit [OF assms(1) this] obtain c1 where
    r: "Remove_key k c = Some (True, c1)" and h: "holds c1 (filter (\<lambda>p. fst p \<noteq> k) xs)" by auto
  have "k \<notin> fst ` set (filter (\<lambda>p. fst p \<noteq> k) xs)" by auto
  from holds_Remove_miss [OF h this] holds_Contains [OF h, of k] this r show ?thesis by simp
qed

theorem remove_twice_witness:
  "holds ex_cache2 [(2, 20), (1, 10)] \<and> Contains 1 ex_cache2 \<and>
   (\<exists>c1. Remove_key 1 ex_cache2 = Some (True, c1) \<and> Remove_key 1 c1 = Some (False, c1) \<and>
      \<not> Contains 1 c1)"
proof -
  have c: "Contains 1 ex_cache2" using holds_Contains [OF ex_cache2_holds, of 1] by simp
  from remove_twice [OF ex_cache2_holds c] ex_cache2_holds c show ?thesis by simp
qed

section \<open>Adding a key that is present\<close>

text \<open>
  Claim C8. On a well-formed cache that contains the key \<open>k\<close>, \<open>Add(k, v2)\<close> returns false;
  the index still maps \<open>k\<close> to the same entry, a following \<open>Get(k)\<close> returns \<open>v2\<close>, the entry is
  the front of the list (\<open>root.next\<close>) and the last of \<open>Keys\<close>, the other keys keep their order,
  \<open>Len\<close> is unchanged and the callback is not invoked.
\<close>

theorem add_present_key:
  assumes "holds c xs" and "Contains k c"
  shows "\<exists>c' c'' ks. Add k v2 c = Some (False, c') \<and> Get k c' = Some ((v2, True), c'') \<and>
           Len c' = Len c \<and> nx (mem c') (evictList c') = items c' k \<and> Contains k c' \<and>
           Keys c = Some ks \<and> Keys c' = Some (filter (\<lambda>x. x \<noteq> k) ks @ [k]) \<and> env c' = env c \<and>
           items c' k = items c k"
proof -
  from assms have k: "k \<in> fst ` set xs" by (simp add: holds_Contains)
  let ?xs' = "(k, v2) # filter (\<lambda>p. fst p \<noteq> k) xs"
  from holds_Add_hit [OF assms(1) k, of v2] obtain c' where
    a: "Add k v2 c = Some (False, c')" and h: "holds c' ?xs'" and e: "env c' = env c"
    and f: "nx (mem c') (evictList c') = items c' k" and i: "items c' = items c" by auto
  have "map_of ?xs' k = Some v2" by simp
  from holds_Get_hit [OF h this] obtain c'' where g: "Get k c' = Some ((v2, True), c'')" by auto
  have "length ?xs' = length xs" using filter_key_length [OF holds_distinct [OF assms(1)] k] by simp
  then have l: "Len c' = Len c" using holds_Len [OF h] holds_Len [OF assms(1)] by simp
  have c: "Contains k c'" using holds_Contains [OF h, of k] by simp
  have "map fst (filter (\<lambda>p. fst p \<noteq> k) xs) = filter (\<lambda>x. x \<noteq> k) (map fst xs)"
    by (induction xs) auto
  then have "rev (map fst ?xs') = filter (\<lambda>x. x \<noteq> k) (rev (map fst xs)) @ [k]"
    by (simp add: rev_filter)
  with holds_Keys [OF h] have "Keys c' = Some (filter (\<lambda>x. x \<noteq> k) (rev (map fst xs)) @ [k])" by simp
  with a g l f c e i holds_Keys [OF assms(1)] show ?thesis by simp
qed

theorem add_present_key_witness:
  "holds ex_cache2 [(2, 20), (1, 10)] \<and> Contains 1 ex_cache2 \<and>
   (\<exists>c' c''. Add 1 11 ex_cache2 = Some (False, c') \<and> Get 1 c' = Some ((11, True), c'') \<and>
      Len c' = Len ex_cache2 \<and> nx (mem c') (evictList c') = items c' 1 \<and> Contains 1 c' \<and>
      Keys ex_cache2 = Some [1, 2] \<and> Keys c' = Some [2, 1] \<and> env c' = env ex_cache2 \<and>
      items c' 1 = items ex_cache2 1)"
proof -
  have c: "Contains 1 ex_cache2" using holds_Contains [OF ex_cache2_holds, of 1] by simp
  have k: "Keys ex_cache2 = Some [1, 2]" using holds_Keys [OF ex_cache2_holds] by simp
  from add_present_key [OF ex_cache2_holds c, of 11] k ex_cache2_holds c show ?thesis by auto
qed

section \<open>Resize on a well-formed cache\<close>

lemma removeOldest_holds:
  assumes h: "holds c xs"
  shows "\<exists>c'. removeOldest c = Some c' \<and> holds c' (butlast xs) \<and>
           env c' = (if xs = [] then env c else apply_cb (onEvict c) (env c) (last xs)) \<and>
           sizeC c' = sizeC c \<and> onEvict c' = onEvict c"
proof -
  from h obtain as where rep: "cache_rep c as" and xs: "pairs (mem c) as = xs" by (auto simp: holds_def)
  from removeOldest_rep [OF rep] obtain c' where
    r: "removeOldest c = Some c'" and rep': "cache_rep c' (butlast as)"
    and pl: "payload (mem c') = payload (mem c)"
    and e: "env c' = (if as = [] then env c else apply_cb (onEvict c) (env c) (the (payload (mem c) (last as))))"
    and fr: "sizeC c' = sizeC c" "onEvict c' = onEvict c" by auto
  have "pairs (mem c') (butlast as) = butlast xs" using xs by (simp add: pairs_def pl map_butlast)
  with rep' have "holds c' (butlast xs)" by (auto simp: holds_def)
  moreover have "as = [] \<longleftrightarrow> xs = []" using xs by (auto simp: pairs_def)
  moreover have "as \<noteq> [] \<Longrightarrow> the (payload (mem c) (last as)) = last xs"
    using pairs_last [of as "mem c"] xs by simp
  ultimately show ?thesis using r e fr by auto
qed

lemma Resize_loop_holds:
  "holds c xs \<Longrightarrow> k = nat (diff - i) \<Longrightarrow>
   \<exists>c'. Resize_loop i diff c = Some c' \<and> holds c' (take (length xs - k) xs) \<and>
        env c' = foldl (apply_cb (onEvict c)) (env c) (rev (drop (length xs - k) xs)) \<and>
        sizeC c' = sizeC c \<and> onEvict c' = onEvict c"
proof (induction k arbitrary: i c xs)
  case 0
  then have "\<not> i < diff" by simp
  then have "Resize_loop i diff c = Some c" by (subst Resize_loop.simps) simp
  with 0 show ?case by simp
next
  case (Suc k)
  then have lt: "i < diff" and k: "k = nat (diff - (i + 1))" by simp_all
  from removeOldest_holds [OF Suc.prems(1)] obtain c1 where
    r: "removeOldest c = Some c1" and h1: "holds c1 (butlast xs)"
    and e1: "env c1 = (if xs = [] then env c else apply_cb (onEvict c) (env c) (last xs))"
    and fr: "sizeC c1 = sizeC c" "onEvict c1 = onEvict c" by auto
  from Suc.IH [OF h1 k] obtain c' where
    l: "Resize_loop (i + 1) diff c1 = Some c'"
    and h': "holds c' (take (length (butlast xs) - k) (butlast xs))"
    and e': "env c' = foldl (apply_cb (onEvict c1)) (env c1) (rev (drop (length (butlast xs) - k) (butlast xs)))"
    and fr': "sizeC c' = sizeC c1" "onEvict c' = onEvict c1" by auto
  have run: "Resize_loop i diff c = Some c'" using lt r l by (subst Resize_loop.simps) simp
  show ?case
  proof (cases "xs = []")
    case True
    with run h' e' e1 fr fr' show ?thesis by simp
  next
    case False
    let ?m = "length xs - Suc k"
    have m: "length (butlast xs) - k = ?m" by simp
    have ml: "?m < length xs" using False by (cases xs) auto
    have t: "take ?m (butlast xs) = take ?m xs" using ml by (simp add: take_butlast)
    have "xs = butlast xs @ [last xs]" using False by simp
    then have "drop ?m xs = drop ?m (butlast xs @ [last xs])" by simp
    also have "\<dots> = drop ?m (butlast xs) @ [last xs]" using ml by simp
    finally have d: "rev (drop ?m xs) = last xs # rev (drop ?m (butlast xs))" by simp
    have "env c' = foldl (apply_cb (onEvict c)) (env c) (rev (drop ?m xs))"
      using e' e1 fr False unfolding m d by simp
    with run h' t fr fr' show ?thesis unfolding m by simp
  qed
qed

lemma wrap64_in_range:
  assumes lo: "- (2 ^ 63) \<le> int (length xs) - n" and hi: "int (length xs) - n < 2 ^ 63"
  shows "wrap64 (int (length xs) - n) = int (length xs) - n"
  unfolding wrap64_def using lo hi by (rule signed_take_bit_int_eq_self)

lemma take_drop_kept:
  assumes "k = nat (int (length xs) - n)"
  shows "take (length xs - k) xs = take (nat n) xs" "drop (length xs - k) xs = drop (nat n) xs"
proof -
  show "take (length xs - k) xs = take (nat n) xs"
  proof (cases "n \<le> int (length xs)")
    case True
    then show ?thesis using assms by (cases "0 \<le> n") (simp_all add: nat_diff_distrib')
  next
    case False
    then show ?thesis using assms by simp
  qed
  show "drop (length xs - k) xs = drop (nat n) xs"
  proof (cases "n \<le> int (length xs)")
    case True
    then show ?thesis using assms by (cases "0 \<le> n") (simp_all add: nat_diff_distrib')
  next
    case False
    then show ?thesis using assms by simp
  qed
qed

lemma holds_sizeC: "holds c xs \<Longrightarrow> holds (c\<lparr>sizeC := s\<rparr>) xs"
  by (simp add: holds_def cache_rep_def)

text \<open>
  When the subtraction does not overflow, \<open>Resize(n)\<close> keeps the \<open>max n 0\<close> newest pairs,
  evicts the others oldest first with one callback invocation each, sets the capacity to
  \<open>max n 0\<close>, and returns that capacity.
\<close>

lemma Resize_holds:
  assumes h: "holds c xs" and lo: "- (2 ^ 63) \<le> int (length xs) - n" and hi: "int (length xs) - n < 2 ^ 63"
  shows "\<exists>c'. Resize n c = Some (max n 0, c') \<and> holds c' (take (nat n) xs) \<and>
           env c' = foldl (apply_cb (onEvict c)) (env c) (rev (drop (nat n) xs)) \<and>
           sizeC c' = max n 0 \<and> onEvict c' = onEvict c"
proof -
  note w = wrap64_in_range [OF lo hi]
  define k where "k = nat (int (length xs) - n - 0)"
  from Resize_loop_holds [OF h k_def] obtain c1 where
    l: "Resize_loop 0 (int (length xs) - n) c = Some c1"
    and h1: "holds c1 (take (length xs - k) xs)"
    and e1: "env c1 = foldl (apply_cb (onEvict c)) (env c) (rev (drop (length xs - k) xs))"
    and fr: "onEvict c1 = onEvict c" by auto
  have k: "k = nat (int (length xs) - n)" by (simp add: k_def)
  note t = take_drop_kept [OF k]
  let ?c2 = "c1\<lparr>sizeC := max n 0\<rparr>"
  have a: "holds ?c2 (take (nat n) xs)" using h1 unfolding t by (rule holds_sizeC)
  have m: "(if n < 0 then 0 else n) = max n 0" by (simp add: max_def)
  have b: "Resize n c = Some (max n 0, ?c2)"
    unfolding Resize_def holds_Len [OF h] by (simp add: w l m Let_def)
  show ?thesis using a b e1 fr unfolding t by simp
qed

section \<open>The result of Resize\<close>

text \<open>
  Claim C1 says that \<open>Resize\<close> returns the number of entries it evicted, and so do the
  comments of the method and of the interface. The method returns \<open>lru.size\<close>, the new
  capacity. On the cache \<open>ex_cache2\<close>, which holds two entries, \<open>Resize(0)\<close> evicts both, oldest
  first, with one callback invocation each, and returns 0; \<open>Resize(5)\<close> evicts nothing and
  returns 5.
\<close>

theorem Resize_returns_new_capacity:
  "Len ex_cache2 = Some 2 \<and> env ex_cache2 = [] \<and>
   map_option fst (Resize 0 ex_cache2) = Some 0 \<and>
   Len (snd (the (Resize 0 ex_cache2))) = Some 0 \<and>
   env (snd (the (Resize 0 ex_cache2))) = [(1, 10), (2, 20)] \<and>
   map_option fst (Resize 5 ex_cache2) = Some 5 \<and>
   Len (snd (the (Resize 5 ex_cache2))) = Some 2 \<and>
   env (snd (the (Resize 5 ex_cache2))) = []"
  by code_simp

text \<open>
  With the argument \<open>- 2^63\<close> the subtraction \<open>lru.Len() - size\<close> overflows to a negative
  number: nothing is evicted and the capacity becomes 0 while two entries stay.
\<close>

lemma Resize_min_int:
  "map_option fst (Resize (- 9223372036854775808) ex_cache2) = Some 0 \<and>
   Len (snd (the (Resize (- 9223372036854775808) ex_cache2))) = Some 2 \<and>
   Cap (snd (the (Resize (- 9223372036854775808) ex_cache2))) = 0"
  by code_simp

section \<open>The wrapper's buffer of evicted pairs\<close>

text \<open>
  Claim C2 says that the buffer is empty when a mutating method releases the lock and that
  every captured pair reaches the user's callback once, in order. \<open>Cache.Resize\<close> moves the
  buffer out only if the number that the controller's \<open>Resize\<close> returned is positive, and
  that number is the new capacity. On the wrapper \<open>ex_wcache2\<close>, which holds two entries and
  an empty buffer, \<open>Resize(0)\<close> evicts both entries into the buffer, returns 0, and leaves the
  two pairs in the buffer with the lock released and the callback never invoked. The next
  \<open>Add(3, 30)\<close> evicts its own pair, hands the stale pair (1, 10) to the callback and drops
  the rest of the buffer.
\<close>

theorem Cache_Resize_keeps_buffer:
  "keysEvicted (env (lru ex_wcache2)) = [] \<and> valsEvicted (env (lru ex_wcache2)) = [] \<and>
   user ex_wcache2 = [] \<and> rwm ex_wcache2 = Unlocked \<and>
   map_option fst (Cache_Resize 0 ex_wcache2) = Some 0 \<and>
   rwm ex_wcache_resized = Unlocked \<and>
   keysEvicted (env (lru ex_wcache_resized)) = [1, 2] \<and>
   valsEvicted (env (lru ex_wcache_resized)) = [10, 20] \<and>
   user ex_wcache_resized = [] \<and>
   map_option fst (Cache_Add 3 30 ex_wcache_resized) = Some True \<and>
   user (snd (the (Cache_Add 3 30 ex_wcache_resized))) = [(1, 10)] \<and>
   keysEvicted (env (lru (snd (the (Cache_Add 3 30 ex_wcache_resized))))) = []"
  by code_simp

section \<open>The lock during the reads of the wrapper\<close>

text \<open>
  Claim C9 says that \<open>GetOldest\<close>, \<open>Keys\<close>, \<open>Vals\<close> and \<open>Len\<close> read the controller under the
  read lock. They release it before the read: the trace of each, called on a fresh wrapper,
  shows the controller called with the lock free. \<open>Contains\<close> and \<open>Peek\<close> call it under the
  read lock and \<open>Get\<close> under the write lock.
\<close>

theorem reads_without_lock:
  "trace ex_wcache0 = [] \<and> rwm ex_wcache0 = Unlocked \<and>
   map_option fst (Cache_GetOldest ex_wcache0) = Some (0, 0, False) \<and>
   trace (snd (the (Cache_GetOldest ex_wcache0))) = [Unlocked] \<and>
   map_option fst (Cache_Keys ex_wcache0) = Some [] \<and>
   trace (snd (the (Cache_Keys ex_wcache0))) = [Unlocked] \<and>
   map_option fst (Cache_Vals ex_wcache0) = Some [] \<and>
   trace (snd (the (Cache_Vals ex_wcache0))) = [Unlocked] \<and>
   map_option fst (Cache_Len ex_wcache0) = Some 0 \<and>
   trace (snd (the (Cache_Len ex_wcache0))) = [Unlocked] \<and>
   map_option fst (Cache_Contains 1 ex_wcache0) = Some False \<and>
   trace (snd (the (Cache_Contains 1 ex_wcache0))) = [RLocked 1] \<and>
   map_option fst (Cache_Peek 1 ex_wcache0) = Some (0, False) \<and>
   trace (snd (the (Cache_Peek 1 ex_wcache0))) = [RLocked 1] \<and>
   map_option fst (Cache_Get 1 ex_wcache0) = Some (0, False) \<and>
   trace (snd (the (Cache_Get 1 ex_wcache0))) = [WLocked]"
  by code_simp

end
